theory Spec2Isabelle
  imports Complex_Main
begin

section \<open>Python strings\<close>

text \<open>
  A Python \<open>str\<close> is modelled as a \<open>string\<close>: one \<open>char\<close> per code point, for the
  code points below 256. \<open>len\<close> is \<open>length\<close>. Indices, sizes and cursors are Python
  integers, hence \<open>int\<close>: the cursor of the segmentation loop can become negative.
\<close>

definition is_space :: "char \<Rightarrow> bool" where
  \<comment> \<open>\<open>str.isspace\<close> and the regular expression class \<open>\s\<close>, below code point 256\<close>
  "is_space c = (let n = (of_char c :: nat) in
     (9 \<le> n \<and> n \<le> 13) \<or> (28 \<le> n \<and> n \<le> 32) \<or> n = 133 \<or> n = 160)"

definition is_word :: "char \<Rightarrow> bool" where
  \<comment> \<open>the regular expression class \<open>\w\<close>: alphanumeric or underscore, below code point 256\<close>
  "is_word c = (let n = (of_char c :: nat) in
     (48 \<le> n \<and> n \<le> 57) \<or> (65 \<le> n \<and> n \<le> 90) \<or> n = 95 \<or> (97 \<le> n \<and> n \<le> 122) \<or>
     n = 170 \<or> n = 178 \<or> n = 179 \<or> n = 181 \<or> n = 185 \<or> n = 186 \<or>
     (188 \<le> n \<and> n \<le> 190) \<or> (192 \<le> n \<and> n \<le> 214) \<or> (216 \<le> n \<and> n \<le> 246) \<or>
     (248 \<le> n \<and> n \<le> 255))"

definition py_index :: "int \<Rightarrow> int \<Rightarrow> int" where
  \<comment> \<open>a slice bound: a negative bound counts from the end, and every bound is clamped\<close>
  "py_index n i = (if i < 0 then max (i + n) 0 else min i n)"

definition py_slice :: "string \<Rightarrow> int \<Rightarrow> int \<Rightarrow> string" where
  \<comment> \<open>\<open>s[i:j]\<close>\<close>
  "py_slice s i j =
     (let n = int (length s); a = py_index n i; b = py_index n j
      in take (nat (b - a)) (drop (nat a) s))"

definition py_strip :: "string \<Rightarrow> string" where
  \<comment> \<open>\<open>s.strip()\<close>\<close>
  "py_strip s = rev (dropWhile is_space (rev (dropWhile is_space s)))"

fun rfind :: "string \<Rightarrow> char \<Rightarrow> int" where
  \<comment> \<open>\<open>s.rfind(c)\<close> for a single character: the highest index, or -1\<close>
  "rfind [] c = - 1"
| "rfind (x # xs) c =
     (let r = rfind xs c in
      if 0 \<le> r then r + 1 else if x = c then 0 else - 1)"

function py_split :: "string \<Rightarrow> string list" where
  \<comment> \<open>\<open>s.split()\<close>: the maximal runs of non-whitespace\<close>
  "py_split s =
     (let s' = dropWhile is_space s in
      if s' = [] then []
      else takeWhile (\<lambda>c. \<not> is_space c) s' #
           py_split (dropWhile (\<lambda>c. \<not> is_space c) s'))"
  by pat_completeness auto
termination
proof (relation "measure length", simp, goal_cases)
  case (1 s s')
  then have ne: "dropWhile is_space s \<noteq> []" by simp
  then obtain c cs where s': "dropWhile is_space s = c # cs" by (meson neq_Nil_conv)
  have "\<not> is_space (hd (dropWhile is_space s))"
    using ne by (rule hd_dropWhile)
  with s' have "\<not> is_space c" by simp
  then have "length (dropWhile (\<lambda>c. \<not> is_space c) (c # cs)) \<le> length cs"
    by (simp add: length_dropWhile_le)
  moreover have "length (dropWhile is_space s) \<le> length s" by (simp add: length_dropWhile_le)
  ultimately show ?case using s' 1 by simp
qed

function count_runs :: "(char \<Rightarrow> bool) \<Rightarrow> string \<Rightarrow> nat" where
  \<comment> \<open>\<open>len(re.findall(r'[...]+', s))\<close>: the number of maximal runs of the class\<close>
  "count_runs P [] = 0"
| "count_runs P (c # cs) =
     (if P c then Suc (count_runs P (dropWhile P cs)) else count_runs P cs)"
  by pat_completeness auto
termination
  by (relation "measure (\<lambda>(P, s). length s)") (auto simp: length_dropWhile_le less_Suc_eq_le)

function sub_spaces :: "string \<Rightarrow> string" where
  \<comment> \<open>\<open>re.sub(r'\s+', ' ', s)\<close>: every maximal run of whitespace becomes one space\<close>
  "sub_spaces [] = []"
| "sub_spaces (c # cs) =
     (if is_space c then CHR '' '' # sub_spaces (dropWhile is_space cs)
      else c # sub_spaces cs)"
  by pat_completeness auto
termination
  by (relation "measure length") (auto simp: length_dropWhile_le less_Suc_eq_le)

section \<open>Configuration (config.py)\<close>

record RuntimeConfig =
  ollama_base_url :: string
  small_chunk_size :: int
  medium_chunk_size :: int
  large_chunk_size :: int
  max_sitemap_urls :: int

definition runtime_config :: RuntimeConfig where
  \<comment> \<open>the configuration as the module instantiates it (the base URL without the environment)\<close>
  "runtime_config =
     \<lparr>ollama_base_url = ''http://localhost:11434'', small_chunk_size = 300,
      medium_chunk_size = 500, large_chunk_size = 800, max_sitemap_urls = 50\<rparr>"

section \<open>Text processing (utils/text\_processing.py)\<close>

definition kept_punctuation :: "char set" where
  \<comment> \<open>the punctuation the second substitution keeps; the en dash and the em dash of the
      source's class lie above code point 255\<close>
  "kept_punctuation = set ''.,?!:;()[]{}-'' \<union> {CHR 0x27, CHR 0x22, CHR 0x60}"

definition clean_text :: "string \<Rightarrow> string" where
  "clean_text text =
     (let text = sub_spaces text;
          text = filter (\<lambda>c. is_word c \<or> is_space c \<or> c \<in> kept_punctuation) text
      in py_strip text)"

definition is_terminator :: "char \<Rightarrow> bool" where
  \<comment> \<open>the class \<open>[.!?]\<close>\<close>
  "is_terminator c = (c = CHR ''.'' \<or> c = CHR ''!'' \<or> c = CHR ''?'')"

text \<open>
  The two quotients of \<open>estimate_text_density\<close> are Python floats. They are modelled as
  exact reals: both are quotients of integers far below \<open>2^53\<close>, so the division is
  correctly rounded, and the comparisons with 25, 10, 0.05 and 0.15 come out as the exact
  ones for every text a process can hold.
\<close>

definition estimate_text_density :: "RuntimeConfig \<Rightarrow> string \<Rightarrow> int" where
  "estimate_text_density cfg text =
     (if text = [] then medium_chunk_size cfg
      else
        let word_count = length (py_split text);
            sentence_count = (if \<exists>c \<in> set text. is_terminator c
                              then count_runs is_terminator text else 1);
            special_char_count = length (filter (\<lambda>c. \<not> is_word c \<and> \<not> is_space c) text);
            avg_words_per_sentence = real word_count / real (max sentence_count 1);
            special_char_ratio = real special_char_count / real (max (length text) 1)
        in if avg_words_per_sentence > 25 \<or> special_char_ratio < 0.05
           then large_chunk_size cfg
           else if avg_words_per_sentence < 10 \<or> special_char_ratio > 0.15
           then small_chunk_size cfg
           else medium_chunk_size cfg)"

definition split_window :: "string \<Rightarrow> int \<Rightarrow> int \<Rightarrow> int \<Rightarrow> string list \<Rightarrow> int \<times> string list" where
  \<comment> \<open>one pass through the body of the \<open>while\<close> loop, up to its final test:
      the new cursor and the new list of chunks\<close>
  "split_window text chunk_size chunk_overlap start chunks =
     (let end = min (start + chunk_size) (int (length text)) in
      if end < int (length text) then
        let split_search_area = py_slice text start (min (start + chunk_size) (int (length text)));
            last_sentence_end_char =
              max (max (rfind split_search_area CHR ''.'') (rfind split_search_area CHR ''?''))
                  (rfind split_search_area CHR ''!'');
            last_newline = rfind split_search_area (CHR 0x0A);
            best_split_point = (if last_sentence_end_char > chunk_overlap
                                then last_sentence_end_char else - 1);
            best_split_point = (if last_newline > chunk_overlap \<and> last_newline > best_split_point
                                then last_newline else best_split_point)
        in if best_split_point \<noteq> - 1 then
             let actual_end_in_text = start + best_split_point + 1
             in (actual_end_in_text - chunk_overlap,
                 chunks @ [py_strip (py_slice text start actual_end_in_text)])
           else (end - chunk_overlap, chunks @ [py_strip (py_slice text start end)])
      else (end, chunks @ [py_strip (py_slice text start end)]))"

partial_function (option) split_loop ::
  "string \<Rightarrow> int \<Rightarrow> int \<Rightarrow> int \<Rightarrow> string list \<Rightarrow> string list option" where
  \<comment> \<open>the \<open>while\<close> loop; \<open>None\<close> is the loop that never ends\<close>
  "split_loop text chunk_size chunk_overlap start chunks =
     (if start < int (length text) then
        case split_window text chunk_size chunk_overlap start chunks of
          (start', chunks') \<Rightarrow>
            if start' \<ge> int (length text) then Some chunks'
            else split_loop text chunk_size chunk_overlap start' chunks'
      else Some chunks)"

definition split_into_chunks ::
  "RuntimeConfig \<Rightarrow> string \<Rightarrow> int option \<Rightarrow> int \<Rightarrow> string list option" where
  "split_into_chunks cfg text chunk_size chunk_overlap =
     (let text = clean_text text;
          chunk_size = (case chunk_size of None \<Rightarrow> estimate_text_density cfg text
                        | Some n \<Rightarrow> n)
      in if int (length text) \<le> chunk_size then Some (if text \<noteq> [] then [text] else [])
         else map_option (filter (\<lambda>c. c \<noteq> []))
                (split_loop text chunk_size chunk_overlap 0 []))"

subsection \<open>The density measures of the decision table\<close>

definition avg_words_per_sentence :: "string \<Rightarrow> real" where
  \<comment> \<open>words are the maximal runs of non-whitespace; sentences are the runs of terminators,
      at least one\<close>
  "avg_words_per_sentence text =
     real (count_runs (\<lambda>c. \<not> is_space c) text) /
     real (max (count_runs is_terminator text) 1)"

definition special_char_ratio :: "string \<Rightarrow> real" where
  "special_char_ratio text =
     real (length (filter (\<lambda>c. \<not> is_word c \<and> \<not> is_space c) text)) /
     real (max (length text) 1)"

subsection \<open>Segmentation without the newline preference\<close>

text \<open>
  The variant of the segmentation that never looks for a newline: the boundary of a window
  that does not reach the end of the text is the last sentence terminator beyond the overlap,
  or else the cut at the chunk size.
\<close>

definition split_window_no_newline ::
  "string \<Rightarrow> int \<Rightarrow> int \<Rightarrow> int \<Rightarrow> string list \<Rightarrow> int \<times> string list" where
  "split_window_no_newline text chunk_size chunk_overlap start chunks =
     (let end = min (start + chunk_size) (int (length text)) in
      if end < int (length text) then
        let split_search_area = py_slice text start (min (start + chunk_size) (int (length text)));
            last_sentence_end_char =
              max (max (rfind split_search_area CHR ''.'') (rfind split_search_area CHR ''?''))
                  (rfind split_search_area CHR ''!'');
            best_split_point = (if last_sentence_end_char > chunk_overlap
                                then last_sentence_end_char else - 1)
        in if best_split_point \<noteq> - 1 then
             let actual_end_in_text = start + best_split_point + 1
             in (actual_end_in_text - chunk_overlap,
                 chunks @ [py_strip (py_slice text start actual_end_in_text)])
           else (end - chunk_overlap, chunks @ [py_strip (py_slice text start end)])
      else (end, chunks @ [py_strip (py_slice text start end)]))"

partial_function (option) split_loop_no_newline ::
  "string \<Rightarrow> int \<Rightarrow> int \<Rightarrow> int \<Rightarrow> string list \<Rightarrow> string list option" where
  "split_loop_no_newline text chunk_size chunk_overlap start chunks =
     (if start < int (length text) then
        case split_window_no_newline text chunk_size chunk_overlap start chunks of
          (start', chunks') \<Rightarrow>
            if start' \<ge> int (length text) then Some chunks'
            else split_loop_no_newline text chunk_size chunk_overlap start' chunks'
      else Some chunks)"

definition split_into_chunks_no_newline ::
  "RuntimeConfig \<Rightarrow> string \<Rightarrow> int option \<Rightarrow> int \<Rightarrow> string list option" where
  "split_into_chunks_no_newline cfg text chunk_size chunk_overlap =
     (let text = clean_text text;
          chunk_size = (case chunk_size of None \<Rightarrow> estimate_text_density cfg text
                        | Some n \<Rightarrow> n)
      in if int (length text) \<le> chunk_size then Some (if text \<noteq> [] then [text] else [])
         else map_option (filter (\<lambda>c. c \<noteq> []))
                (split_loop_no_newline text chunk_size chunk_overlap 0 []))"

subsection \<open>Windows and the removal of overlaps\<close>

fun shared_overlap :: "nat \<Rightarrow> string \<Rightarrow> string \<Rightarrow> nat" where
  \<comment> \<open>the overlapping region of two consecutive pieces: the length of the longest suffix
      of the first, of at most \<open>overlap\<close> characters, that is a prefix of the second\<close>
  "shared_overlap 0 a b = 0"
| "shared_overlap (Suc k) a b =
     (if Suc k \<le> length a \<and> Suc k \<le> length b \<and> drop (length a - Suc k) a = take (Suc k) b
      then Suc k else shared_overlap k a b)"

fun remove_overlaps :: "nat \<Rightarrow> string list \<Rightarrow> string" where
  \<comment> \<open>concatenation with the overlapping regions removed: every piece but the first
      loses the characters it shares with its predecessor\<close>
  "remove_overlaps overlap [] = []"
| "remove_overlaps overlap [c] = c"
| "remove_overlaps overlap (c # c' # cs) =
     c @ drop (shared_overlap overlap c c') (remove_overlaps overlap (c' # cs))"

fun windows_from :: "string \<Rightarrow> nat \<Rightarrow> nat \<Rightarrow> nat \<Rightarrow> string list \<Rightarrow> bool" where
  \<comment> \<open>\<open>ws\<close> are consecutive slices of \<open>t\<close>, the first starting at \<open>s\<close>, each starting
      \<open>overlap\<close> characters before the end of its predecessor, the last reaching the end\<close>
  "windows_from t wsize overlap s [] = False"
| "windows_from t wsize overlap s [w] = (s < length t \<and> w = drop s t \<and> length w \<le> wsize)"
| "windows_from t wsize overlap s (w # ws) =
     (overlap < length w \<and> length w \<le> wsize \<and> s + length w < length t \<and>
      w = take (length w) (drop s t) \<and>
      windows_from t wsize overlap (s + length w - overlap) ws)"

subsection \<open>A text with a long gap\<close>

definition gap_text :: string where
  \<comment> \<open>200 letters, a hundred times a space and a character that the normalization
      removes, 300 letters\<close>
  "gap_text = replicate 200 CHR ''a'' @ concat (replicate 100 '' @'') @ replicate 300 CHR ''b''"

definition gap_clean :: string where
  \<comment> \<open>its normalized form: the hundred spaces are left next to each other\<close>
  "gap_clean = replicate 200 CHR ''a'' @ replicate 100 CHR '' '' @ replicate 300 CHR ''b''"

section \<open>Python values and dictionaries\<close>

datatype pyval = PNone | PStr string | PInt int | PBool bool

type_synonym pydict = "string \<rightharpoonup> pyval"

definition py_get :: "pydict \<Rightarrow> string \<Rightarrow> pyval" where
  \<comment> \<open>\<open>d.get(k)\<close>\<close>
  "py_get d k = (case d k of None \<Rightarrow> PNone | Some v \<Rightarrow> v)"

definition py_lower :: "string \<Rightarrow> string" where
  \<comment> \<open>\<open>s.lower()\<close>, below code point 256\<close>
  "py_lower s =
     map (\<lambda>c. let n = (of_char c :: nat) in
            if (65 \<le> n \<and> n \<le> 90) \<or> (192 \<le> n \<and> n \<le> 222 \<and> n \<noteq> 215)
            then char_of (n + 32) else c) s"

datatype py_error = Exception

section \<open>The index collaborator\<close>

text \<open>
  The embedding and index engine is outside the repository. It is modelled by its contract:
  a client holds named collections of records, and refuses to create a collection under a
  name that breaks its naming rule; a collection stores one record per added text under
  the given id, and silently skips a record whose id is already stored; the engine raises
  when the collection is gone, when the sequences of an addition differ in length, when an
  id is repeated in the batch, when a metadata dictionary is empty, and when a query asks
  for no or a negative number of results. The ranking of a query is a parameter, the
  distance between the query and a stored text.
\<close>

record indexed_record =
  rec_id :: string
  rec_document :: string
  rec_metadata :: pydict

type_synonym chroma_client = "string \<rightharpoonup> indexed_record list"

record query_result =
  qr_ids :: "string list"
  qr_documents :: "string list"
  qr_metadatas :: "pydict list"
  qr_distances :: "real list"

definition is_ascii_alnum :: "char \<Rightarrow> bool" where
  "is_ascii_alnum c = (let n = (of_char c :: nat) in
     (48 \<le> n \<and> n \<le> 57) \<or> (65 \<le> n \<and> n \<le> 90) \<or> (97 \<le> n \<and> n \<le> 122))"

fun has_two_dots :: "string \<Rightarrow> bool" where
  "has_two_dots (a # b # r) = ((a = CHR ''.'' \<and> b = CHR ''.'') \<or> has_two_dots (b # r))"
| "has_two_dots _ = False"

fun split_dots :: "string \<Rightarrow> string list" where
  "split_dots [] = [[]]"
| "split_dots (x # xs) =
     (if x = CHR ''.'' then [] # split_dots xs
      else case split_dots xs of p # ps \<Rightarrow> (x # p) # ps | [] \<Rightarrow> [[x]])"

definition is_octet :: "string \<Rightarrow> bool" where
  \<comment> \<open>a decimal number from 0 to 255 without a leading zero\<close>
  "is_octet p =
     (p \<noteq> [] \<and> length p \<le> 3 \<and>
      (\<forall>d \<in> set p. 48 \<le> (of_char d :: nat) \<and> (of_char d :: nat) \<le> 57) \<and>
      (length p = 1 \<or> hd p \<noteq> CHR ''0'') \<and>
      foldl (\<lambda>a d. 10 * a + ((of_char d :: nat) - 48)) 0 p \<le> 255)"

definition is_ipv4 :: "string \<Rightarrow> bool" where
  "is_ipv4 s = (length (split_dots s) = 4 \<and> (\<forall>p \<in> set (split_dots s). is_octet p))"

definition valid_collection_name :: "string \<Rightarrow> bool" where
  \<comment> \<open>the naming rule of the engine: 3 to 63 characters out of letters, digits, dot,
      underscore and hyphen, a letter or digit first and last, no two dots in a row, not an
      IPv4 address\<close>
  "valid_collection_name name =
     (3 \<le> length name \<and> length name \<le> 63 \<and>
      is_ascii_alnum (hd name) \<and> is_ascii_alnum (last name) \<and>
      (\<forall>c \<in> set name. is_ascii_alnum c \<or> c = CHR ''.'' \<or> c = CHR ''_'' \<or> c = CHR ''-'') \<and>
      \<not> has_two_dots name \<and> \<not> is_ipv4 name)"

definition get_or_create_collection :: "chroma_client \<Rightarrow> string \<Rightarrow> py_error + chroma_client" where
  "get_or_create_collection db name =
     (if \<not> valid_collection_name name then Inl Exception
      else Inr (case db name of None \<Rightarrow> db(name \<mapsto> []) | Some _ \<Rightarrow> db))"

definition collection_add ::
  "chroma_client \<Rightarrow> string \<Rightarrow> string list \<Rightarrow> pydict list \<Rightarrow> string list
   \<Rightarrow> py_error + chroma_client" where
  "collection_add db name documents metadatas ids =
     (case db name of
        None \<Rightarrow> Inl Exception
      | Some recs \<Rightarrow>
          if length documents \<noteq> length ids \<or> length metadatas \<noteq> length ids \<or>
             \<not> distinct ids \<or> (\<exists>m \<in> set metadatas. m = Map.empty)
          then Inl Exception
          else Inr (db(name \<mapsto> recs @
                 filter (\<lambda>r. rec_id r \<notin> set (map rec_id recs))
                   (map (\<lambda>(i, d, m). \<lparr>rec_id = i, rec_document = d, rec_metadata = m\<rparr>)
                      (zip ids (zip documents metadatas))))))"

definition collection_count :: "chroma_client \<Rightarrow> string \<Rightarrow> py_error + nat" where
  "collection_count db name =
     (case db name of None \<Rightarrow> Inl Exception | Some recs \<Rightarrow> Inr (length recs))"

definition collection_query ::
  "(string \<Rightarrow> string \<Rightarrow> real) \<Rightarrow> chroma_client \<Rightarrow> string \<Rightarrow> string \<Rightarrow> int
   \<Rightarrow> py_error + query_result" where
  "collection_query distance db name query n_results =
     (case db name of
        None \<Rightarrow> Inl Exception
      | Some recs \<Rightarrow>
          if n_results \<le> 0 then Inl Exception
          else let hits = take (nat n_results)
                            (sort_key (\<lambda>r. distance query (rec_document r)) recs)
               in Inr \<lparr>qr_ids = map rec_id hits, qr_documents = map rec_document hits,
                       qr_metadatas = map rec_metadata hits,
                       qr_distances = map (\<lambda>r. distance query (rec_document r)) hits\<rparr>)"


section \<open>The process: index client and UUID source\<close>

record world =
  chroma :: chroma_client
  uuid_source :: "nat \<Rightarrow> string"  \<comment> \<open>the values \<open>str(uuid.uuid4())\<close> returns, in order\<close>
  uuid_next :: nat                 \<comment> \<open>how many of them have been drawn\<close>

definition uuid4s :: "nat \<Rightarrow> world \<Rightarrow> string list \<times> world" where
  \<comment> \<open>\<open>[str(uuid.uuid4()) for _ in texts]\<close>\<close>
  "uuid4s n w =
     (map (uuid_source w) [uuid_next w ..< uuid_next w + n], w\<lparr>uuid_next := uuid_next w + n\<rparr>)"

section \<open>The tenant vector store (data\_store/chroma\_store.py)\<close>

record ChromaVectorStore =
  collection_name :: string
  client :: bool                \<comment> \<open>the client is not \<open>None\<close>\<close>
  embedding_function :: bool    \<comment> \<open>the embedding function is not \<open>None\<close>\<close>
  collection :: bool            \<comment> \<open>the collection handle is not \<open>None\<close>\<close>

definition ChromaVectorStore_init ::
  "bool \<Rightarrow> bool \<Rightarrow> string \<Rightarrow> world \<Rightarrow> ChromaVectorStore \<times> world" where
  \<comment> \<open>\<open>__init__\<close> with \<open>_initialize_collection\<close>; the first two arguments say whether the
      memoized client and embedding function could be built. When the engine refuses to
      create the collection, the handle stays \<open>None\<close>\<close>
  "ChromaVectorStore_init client_ok embedding_ok name w =
     (if \<not> client_ok \<or> \<not> embedding_ok
      then (\<lparr>collection_name = name, client = client_ok, embedding_function = embedding_ok,
             collection = False\<rparr>, w)
      else case get_or_create_collection (chroma w) name of
             Inl e \<Rightarrow>
               (\<lparr>collection_name = name, client = client_ok,
                 embedding_function = embedding_ok, collection = False\<rparr>, w)
           | Inr db \<Rightarrow>
               (\<lparr>collection_name = name, client = client_ok,
                 embedding_function = embedding_ok, collection = True\<rparr>,
                w\<lparr>chroma := db\<rparr>))"

definition add_texts ::
  "ChromaVectorStore \<Rightarrow> world \<Rightarrow> string list \<Rightarrow> pydict list option \<Rightarrow> string list option
   \<Rightarrow> string list \<times> world" where
  "add_texts store w texts metadatas ids =
     (if texts = [] then ([], w)
      else if \<not> collection store then ([], w)
      else
        let metadatas = (case metadatas of None \<Rightarrow> map (\<lambda>_. Map.empty) texts | Some m \<Rightarrow> m);
            (ids, w) = (case ids of None \<Rightarrow> uuid4s (length texts) w | Some i \<Rightarrow> (i, w));
            (ids, w) = (if length ids \<noteq> length (remdups ids)
                        then uuid4s (length texts) w else (ids, w))
        in case collection_add (chroma w) (collection_name store) texts metadatas ids of
             Inl e \<Rightarrow> ([], w)
           | Inr db \<Rightarrow> (ids, w\<lparr>chroma := db\<rparr>))"

datatype index_call = Count | Query string int

record search_hit =
  hit_id :: string
  hit_content :: string
  hit_metadata :: pydict
  hit_score :: real

definition format_results :: "query_result \<Rightarrow> py_error + search_hit list" where
  \<comment> \<open>the loop over the zipped result arrays; the id is read by index\<close>
  "format_results results =
     (if qr_documents results \<noteq> [] then
        let rows = zip (qr_documents results) (zip (qr_metadatas results) (qr_distances results))
        in if length (qr_ids results) < length rows then Inl Exception
           else Inr (map (\<lambda>(i, doc, metadata, distance).
                       \<lparr>hit_id = qr_ids results ! i, hit_content = doc,
                        hit_metadata = metadata, hit_score = 1 - distance\<rparr>)
                     (zip [0 ..< length rows] rows))
      else Inr [])"

definition similarity_search ::
  "(string \<Rightarrow> string \<Rightarrow> real) \<Rightarrow> ChromaVectorStore \<Rightarrow> world \<Rightarrow> string \<Rightarrow> int
   \<Rightarrow> search_hit list \<times> index_call list" where
  \<comment> \<open>the result, and the calls made to the index, in order\<close>
  "similarity_search distance store w query k =
     (if \<not> collection store then ([], [])
      else
        case collection_count (chroma w) (collection_name store) of
          Inl e \<Rightarrow> ([], [Count])
        | Inr count \<Rightarrow>
            if count = 0 then ([], [Count])
            else
              let n_results = min k (int count) in
              case collection_query distance (chroma w) (collection_name store) query n_results of
                Inl e \<Rightarrow> ([], [Count, Query query n_results])
              | Inr results \<Rightarrow>
                  (case format_results results of
                     Inl e \<Rightarrow> ([], [Count, Query query n_results])
                   | Inr formatted_results \<Rightarrow>
                       (formatted_results, [Count, Query query n_results])))"

definition get_count :: "ChromaVectorStore \<Rightarrow> world \<Rightarrow> nat" where
  "get_count store w =
     (if \<not> collection store then 0
      else case collection_count (chroma w) (collection_name store) of
             Inl e \<Rightarrow> 0 | Inr n \<Rightarrow> n)"


section \<open>The registry of tenants (rag/instance\_manager.py)\<close>

record RAGInstance =
  inst_id :: string
  name :: string
  description :: string
  inst_collection_name :: string
  vector_store :: ChromaVectorStore
  documents_info :: "pydict list"
  created_at :: string

definition RAGInstance_init ::
  "bool \<Rightarrow> bool \<Rightarrow> string \<Rightarrow> string \<Rightarrow> string \<Rightarrow> world \<Rightarrow> RAGInstance \<times> world" where
  \<comment> \<open>\<open>__init__\<close>; \<open>now\<close> is \<open>datetime.now().isoformat()\<close>\<close>
  "RAGInstance_init client_ok embedding_ok now nm descr w =
     (case uuid4s 1 w of (ids, w) \<Rightarrow>
        let i = hd ids;
            cname = ''rag_'' @ map (\<lambda>c. if c = CHR '' '' then CHR ''_'' else c) (py_lower nm)
                    @ ''_'' @ take 8 i
        in case ChromaVectorStore_init client_ok embedding_ok cname w of (store, w) \<Rightarrow>
             (\<lparr>inst_id = i, name = nm, description = descr, inst_collection_name = cname,
               vector_store = store, documents_info = [], created_at = now\<rparr>, w))"

definition get_vector_count :: "RAGInstance \<Rightarrow> world \<Rightarrow> nat" where
  "get_vector_count inst w = get_count (vector_store inst) w"

definition add_document :: "string \<Rightarrow> world \<Rightarrow> RAGInstance \<Rightarrow> pydict \<Rightarrow> RAGInstance" where
  \<comment> \<open>\<open>now\<close> is \<open>datetime.now().isoformat()\<close>; the instance is returned with its ledger
      updated\<close>
  "add_document now w inst doc_info =
     (let key_field = (if py_get doc_info ''type'' = PStr ''url'' then ''url'' else ''filename'');
          appended = inst\<lparr>documents_info := documents_info inst @ [doc_info]\<rparr>
      in case doc_info key_field of
           None \<Rightarrow> appended
         | Some v \<Rightarrow>
             (case List.extract (\<lambda>d. py_get d key_field = v) (documents_info inst) of
                None \<Rightarrow> appended
              | Some (before, existing_doc, after) \<Rightarrow>
                  if existing_doc \<noteq> Map.empty then
                    let existing_doc = existing_doc ++ doc_info;
                        existing_doc = existing_doc(''chunks'' \<mapsto> PInt (int (get_vector_count inst w)));
                        existing_doc = existing_doc(''date_updated'' \<mapsto> PStr now)
                    in inst\<lparr>documents_info := before @ [existing_doc] @ after\<rparr>
                  else appended))"

definition RAGInstance_add_texts ::
  "RAGInstance \<Rightarrow> world \<Rightarrow> string list \<Rightarrow> pydict list option \<Rightarrow> string list \<times> world" where
  "RAGInstance_add_texts inst w texts metadatas = add_texts (vector_store inst) w texts metadatas None"




section \<open>Recording an ingestion (data\_store/document\_processor.py)\<close>

definition process_pdf_store ::
  "string \<Rightarrow> string \<Rightarrow> int \<Rightarrow> string list \<Rightarrow> pydict list \<Rightarrow> RAGInstance \<Rightarrow> world
   \<Rightarrow> RAGInstance \<times> world" where
  \<comment> \<open>\<open>process_pdf\<close> from \<open>if all_chunks:\<close> on: the chunks and metadata gathered from the
      pages go to the store in one batch, then the document is recorded\<close>
  "process_pdf_store now filename file_size all_chunks all_metadatas inst w =
     (if all_chunks \<noteq> [] then
        case RAGInstance_add_texts inst w all_chunks (Some all_metadatas) of (ids, w) \<Rightarrow>
          (add_document now w inst
             [''type'' \<mapsto> PStr ''pdf'', ''filename'' \<mapsto> PStr filename,
              ''chunks'' \<mapsto> PInt (int (length all_chunks)), ''size'' \<mapsto> PInt file_size,
              ''date_added'' \<mapsto> PStr now], w)
      else (inst, w))"

subsection \<open>The key of a document summary\<close>

definition key_field_of :: "pydict \<Rightarrow> string" where
  "key_field_of d = (if py_get d ''type'' = PStr ''url'' then ''url'' else ''filename'')"

definition other_field_of :: "pydict \<Rightarrow> string" where
  "other_field_of d = (if py_get d ''type'' = PStr ''url'' then ''filename'' else ''url'')"

definition summary_key :: "pydict \<Rightarrow> string \<times> pyval" where
  \<comment> \<open>the key field of a summary and its value\<close>
  "summary_key d = (key_field_of d, py_get d (key_field_of d))"

definition wf_summary :: "pydict \<Rightarrow> bool" where
  \<comment> \<open>a summary as the ingestion paths build it: it carries its key field, with a value,
      and not the key field of the other kind\<close>
  "wf_summary d =
     (d (key_field_of d) \<noteq> None \<and> py_get d (key_field_of d) \<noteq> PNone \<and>
      d (other_field_of d) = None)"

definition one_per_key :: "pydict list \<Rightarrow> bool" where
  "one_per_key docs = distinct (map summary_key docs)"

subsection \<open>A tenant, its store and a session\<close>

definition ex_store :: ChromaVectorStore where
  "ex_store = \<lparr>collection_name = ''rag_docs_u'', client = True, embedding_function = True,
               collection = True\<rparr>"

definition ex_store_down :: ChromaVectorStore where
  \<comment> \<open>the store of a process whose index client could not be built\<close>
  "ex_store_down = \<lparr>collection_name = ''rag_docs_u'', client = False,
                    embedding_function = True, collection = False\<rparr>"

definition ex_meta :: pydict where
  "ex_meta = [''source_type'' \<mapsto> PStr ''text'']"



definition ex_uuid :: "nat \<Rightarrow> string" where
  \<comment> \<open>a source of pairwise different identifiers\<close>
  "ex_uuid n = replicate (Suc n) CHR ''u''"

definition ex_world :: world where
  \<comment> \<open>the process after the creation of the tenant: its collection exists and is empty\<close>
  "ex_world = \<lparr>chroma = [''rag_docs_u'' \<mapsto> []], uuid_source = ex_uuid, uuid_next = 1\<rparr>"

definition ex_world_two :: world where
  \<comment> \<open>the same with two records stored\<close>
  "ex_world_two =
     \<lparr>chroma = [''rag_docs_u'' \<mapsto>
         [\<lparr>rec_id = ''uu'', rec_document = ''first'', rec_metadata = Map.empty\<rparr>,
          \<lparr>rec_id = ''uuu'', rec_document = ''second'', rec_metadata = Map.empty\<rparr>]],
      uuid_source = ex_uuid, uuid_next = 3\<rparr>"


subsection \<open>Two ingestions of one file\<close>

definition pdf_summary :: "string \<Rightarrow> string \<Rightarrow> int \<Rightarrow> int \<Rightarrow> pydict" where
  \<comment> \<open>the summary \<open>process_pdf\<close> records\<close>
  "pdf_summary now filename n_chunks file_size =
     [''type'' \<mapsto> PStr ''pdf'', ''filename'' \<mapsto> PStr filename, ''chunks'' \<mapsto> PInt n_chunks,
      ''size'' \<mapsto> PInt file_size, ''date_added'' \<mapsto> PStr now]"

definition store_holds :: "ChromaVectorStore \<Rightarrow> world \<Rightarrow> nat \<Rightarrow> bool" where
  \<comment> \<open>the store works and holds \<open>n\<close> records, all under ids drawn from the UUID source,
      which does not repeat itself\<close>
  "store_holds store w n =
     (inj (uuid_source w) \<and> collection store \<and>
      (case chroma w (collection_name store) of
         None \<Rightarrow> False
       | Some recs \<Rightarrow> length recs = n \<and>
                      set (map rec_id recs) \<subseteq> uuid_source w ` {..< uuid_next w}))"

definition scenario_start :: "RAGInstance \<times> world" where
  \<comment> \<open>the tenant "Docs" is created in a fresh process\<close>
  "scenario_start =
     RAGInstance_init True True ''2025-01-01T00:00:00'' ''Docs'' []
       \<lparr>chroma = Map.empty, uuid_source = ex_uuid, uuid_next = 0\<rparr>"

definition scenario_first :: "RAGInstance \<times> world" where
  \<comment> \<open>the file is ingested with 10 chunks\<close>
  "scenario_first =
     (case scenario_start of (inst, w) \<Rightarrow>
        process_pdf_store ''2025-01-01T00:01:00'' ''a.txt'' 1000
          (replicate 10 ''chunk'')
          (replicate 10 [''source_type'' \<mapsto> PStr ''pdf'', ''filename'' \<mapsto> PStr ''a.txt''])
          inst w)"

definition scenario_second :: "RAGInstance \<times> world" where
  \<comment> \<open>the file is ingested again, with 15 chunks\<close>
  "scenario_second =
     (case scenario_first of (inst, w) \<Rightarrow>
        process_pdf_store ''2025-01-01T00:02:00'' ''a.txt'' 1500
          (replicate 15 ''chunk'')
          (replicate 15 [''source_type'' \<mapsto> PStr ''pdf'', ''filename'' \<mapsto> PStr ''a.txt''])
          inst w)"

section \<open>Short texts\<close>

text \<open>
  C8: a text whose normalized length is at most the chunk size is returned as the single
  chunk, equal to the normalized text; an empty normalized text gives the empty sequence.
  This holds for a supplied chunk size and for the estimated one.
\<close>

theorem split_short_text:
  "(int (length (clean_text text)) \<le> n \<longrightarrow>
      split_into_chunks cfg text (Some n) ov =
        Some (if clean_text text = [] then [] else [clean_text text])) \<and>
   (int (length (clean_text text)) \<le> estimate_text_density cfg (clean_text text) \<longrightarrow>
      split_into_chunks cfg text None ov =
        Some (if clean_text text = [] then [] else [clean_text text]))"
  by (simp add: split_into_chunks_def Let_def)

theorem split_short_text_witness:
  "int (length (clean_text ''  Hello,   world!  '')) \<le> 500 \<and>
   split_into_chunks runtime_config ''  Hello,   world!  '' (Some 500) 100 = Some [''Hello, world!''] \<and>
   int (length (clean_text ''  Hello,   world!  ''))
     \<le> estimate_text_density runtime_config (clean_text ''  Hello,   world!  '') \<and>
   split_into_chunks runtime_config ''  Hello,   world!  '' None 100 = Some [''Hello, world!''] \<and>
   int (length (clean_text ''  @ ''))  \<le> 500 \<and>
   split_into_chunks runtime_config ''  @ '' (Some 500) 100 = Some []"
proof -
  have c: "clean_text ''  Hello,   world!  '' = ''Hello, world!''"
    by code_simp
  have e: "estimate_text_density runtime_config ''Hello, world!'' = 300"
    by code_simp
  have d: "clean_text ''  @ '' = []"
    by code_simp
  show ?thesis
    using split_short_text [of "''  Hello,   world!  ''" 500 runtime_config 100]
      split_short_text [of "''  @ ''" 500 runtime_config 100]
    by (simp add: c d e)
qed

section \<open>Density classification\<close>

lemma count_runs_dropWhile_space:
  "count_runs (\<lambda>c. \<not> is_space c) (dropWhile is_space s) = count_runs (\<lambda>c. \<not> is_space c) s"
  by (induction s) auto

lemma length_py_split: "length (py_split s) = count_runs (\<lambda>c. \<not> is_space c) s"
proof (induction s rule: py_split.induct)
  case (1 s)
  show ?case
  proof (cases "dropWhile is_space s")
    case Nil
    then have "count_runs (\<lambda>c. \<not> is_space c) (dropWhile is_space s) = 0"
      by (simp only: count_runs.simps)
    then have "count_runs (\<lambda>c. \<not> is_space c) s = 0"
      by (simp only: count_runs_dropWhile_space)
    with Nil show ?thesis by (subst py_split.simps) simp
  next
    case (Cons c cs)
    have "\<not> is_space (hd (dropWhile is_space s))"
      by (rule hd_dropWhile) (simp add: Cons)
    then have nc: "\<not> is_space c" by (simp add: Cons)
    have "count_runs (\<lambda>c. \<not> is_space c) s
          = count_runs (\<lambda>c. \<not> is_space c) (c # cs)"
      using count_runs_dropWhile_space[of s] by (simp only: Cons)
    also have "\<dots> = Suc (count_runs (\<lambda>c. \<not> is_space c) (dropWhile (\<lambda>c. \<not> is_space c) cs))"
      using nc by simp
    finally have a: "count_runs (\<lambda>c. \<not> is_space c) s
          = Suc (count_runs (\<lambda>c. \<not> is_space c) (dropWhile (\<lambda>c. \<not> is_space c) cs))" .
    have ih: "length (py_split (dropWhile (\<lambda>c. \<not> is_space c) (c # cs)))
          = count_runs (\<lambda>c. \<not> is_space c) (dropWhile (\<lambda>c. \<not> is_space c) (c # cs))"
      using 1[OF refl] by (simp add: Cons del: dropWhile.simps)
    have "length (py_split s) = Suc (length (py_split (dropWhile (\<lambda>c. \<not> is_space c) (c # cs))))"
      by (subst py_split.simps) (simp add: Cons)
    then show ?thesis using a nc ih by simp
  qed
qed

lemma sentence_count_max:
  "max (if \<exists>c \<in> set s. is_terminator c then count_runs is_terminator s else 1) 1
   = max (count_runs is_terminator s) 1"
proof (cases "\<exists>c \<in> set s. is_terminator c")
  case True then show ?thesis by simp
next
  case False
  then have "count_runs is_terminator s = 0" by (induction s) auto
  with False show ?thesis by simp
qed

text \<open>
  C6: the density estimate always is one of the three configured sizes. The empty text
  gives the medium size; any other text gives the first matching row of the decision table
  over the two measures: large when there are more than 25 words per sentence or fewer than
  0.05 special characters per character, else small when there are fewer than 10 words per
  sentence or more than 0.15 special characters per character, else medium.
\<close>

theorem density_decision_table:
  "estimate_text_density cfg text
     \<in> {small_chunk_size cfg, medium_chunk_size cfg, large_chunk_size cfg} \<and>
   (text = [] \<longrightarrow> estimate_text_density cfg text = medium_chunk_size cfg) \<and>
   (text \<noteq> [] \<longrightarrow>
      estimate_text_density cfg text =
        (if avg_words_per_sentence text > 25 \<or> special_char_ratio text < 0.05
         then large_chunk_size cfg
         else if avg_words_per_sentence text < 10 \<or> special_char_ratio text > 0.15
         then small_chunk_size cfg
         else medium_chunk_size cfg))"
  unfolding estimate_text_density_def avg_words_per_sentence_def special_char_ratio_def Let_def
    sentence_count_max length_py_split
  by simp

theorem density_decision_table_witness:
  "estimate_text_density runtime_config [] = 500 \<and>
   ''plain words'' \<noteq> [] \<and> special_char_ratio ''plain words'' = 0 \<and>
   estimate_text_density runtime_config ''plain words'' = 800 \<and>
   avg_words_per_sentence ''Hello, world!'' = 2 \<and>
   special_char_ratio ''Hello, world!'' = 2 / 13 \<and>
   estimate_text_density runtime_config ''Hello, world!'' = 300 \<and>
   avg_words_per_sentence ''a b c d e f g h i, j.'' = 10 \<and>
   special_char_ratio ''a b c d e f g h i, j.'' = 2 / 21 \<and>
   estimate_text_density runtime_config ''a b c d e f g h i, j.'' = 500"
proof -
  have w1: "avg_words_per_sentence ''Hello, world!'' = 2"
    by (simp add: avg_words_per_sentence_def is_space_def is_terminator_def)
  have w2: "special_char_ratio ''Hello, world!'' = 2 / 13"
    by (simp add: special_char_ratio_def is_space_def is_word_def)
  have w3: "avg_words_per_sentence ''a b c d e f g h i, j.'' = 10"
    by (simp add: avg_words_per_sentence_def is_space_def is_terminator_def)
  have w4: "special_char_ratio ''a b c d e f g h i, j.'' = 2 / 21"
    by (simp add: special_char_ratio_def is_space_def is_word_def)
  have w5: "special_char_ratio ''plain words'' = 0"
    by (simp add: special_char_ratio_def is_space_def is_word_def)
  show ?thesis
    using density_decision_table [of runtime_config "[]"]
      density_decision_table [of runtime_config "''plain words''"]
      density_decision_table [of runtime_config "''Hello, world!''"]
      density_decision_table [of runtime_config "''a b c d e f g h i, j.''"]
    by (simp add: w1 w2 w3 w4 w5 runtime_config_def)
qed

section \<open>The newline preference\<close>

lemma rfind_ge: "- 1 \<le> rfind s c"
  by (induction s) (auto simp: Let_def)

lemma rfind_lt: "rfind s c < int (length s)"
  by (induction s) (auto simp: Let_def)

lemma rfind_notin: "c \<notin> set s \<Longrightarrow> rfind s c = - 1"
  by (induction s) (auto simp: Let_def)

lemma set_py_slice: "set (py_slice s i j) \<subseteq> set s"
  unfolding py_slice_def Let_def
  by (meson set_take_subset set_drop_subset subset_trans)

lemma set_py_strip: "set (py_strip s) \<subseteq> set s"
proof -
  have "set (py_strip s) \<subseteq> set (dropWhile is_space s)"
    unfolding py_strip_def using set_dropWhileD by fastforce
  also have "\<dots> \<subseteq> set s" using set_dropWhileD by fastforce
  finally show ?thesis .
qed

lemma sub_spaces_space: "c \<in> set (sub_spaces s) \<Longrightarrow> is_space c \<Longrightarrow> c = CHR '' ''"
proof (induction s rule: sub_spaces.induct)
  case 1
  then show ?case by simp
next
  case (2 x xs)
  then show ?case by (auto split: if_splits)
qed

lemma clean_text_space: "c \<in> set (clean_text t) \<Longrightarrow> is_space c \<Longrightarrow> c = CHR '' ''"
proof -
  assume c: "c \<in> set (clean_text t)" and sp: "is_space c"
  from c have "c \<in> set (sub_spaces t)"
    unfolding clean_text_def Let_def using set_py_strip by fastforce
  then show ?thesis using sp by (rule sub_spaces_space)
qed

lemma clean_text_no_newline: "CHR 0x0A \<notin> set (clean_text t)"
proof
  assume "CHR 0x0A \<in> set (clean_text t)"
  moreover have "is_space (CHR 0x0A)" by (simp add: is_space_def)
  ultimately have "CHR 0x0A = CHR '' ''" by (rule clean_text_space)
  then show False by simp
qed

lemma split_window_no_newline_eq:
  assumes "CHR 0x0A \<notin> set t"
  shows "split_window t cs ov start chunks = split_window_no_newline t cs ov start chunks"
proof -
  define area where "area = py_slice t start (min (start + cs) (int (length t)))"
  define lse where
    "lse = max (max (rfind area CHR ''.'') (rfind area CHR ''?'')) (rfind area CHR ''!'')"
  have "CHR 0x0A \<notin> set area"
    using assms set_py_slice unfolding area_def by blast
  then have nl: "rfind area (CHR 0x0A) = - 1" by (rule rfind_notin)
  have ge: "- 1 \<le> lse"
    unfolding lse_def using rfind_ge[of area "CHR ''.''"] by linarith
  have b: "(if rfind area (CHR 0x0A) > ov \<and>
               rfind area (CHR 0x0A) > (if lse > ov then lse else - 1)
            then rfind area (CHR 0x0A) else (if lse > ov then lse else - 1))
           = (if lse > ov then lse else - 1)"
    unfolding nl using ge by simp
  show ?thesis
    unfolding split_window_def split_window_no_newline_def Let_def
    by (simp only: b[unfolded lse_def area_def])
qed

lemma split_loop_imp_no_newline:
  assumes "split_loop t cs ov start chunks = Some y" and "CHR 0x0A \<notin> set t"
  shows "split_loop_no_newline t cs ov start chunks = Some y"
proof -
  have "CHR 0x0A \<notin> set t \<longrightarrow> split_loop_no_newline t cs ov start chunks = Some y"
  proof (rule split_loop.raw_induct[where P = "\<lambda>t cs ov start chunks y.
      CHR 0x0A \<notin> set t \<longrightarrow> split_loop_no_newline t cs ov start chunks = Some y"], goal_cases)
    case (1 loop t cs ov start chunks y)
    show ?case
    proof
      assume nl: "CHR 0x0A \<notin> set t"
      show "split_loop_no_newline t cs ov start chunks = Some y"
      proof (cases "start < int (length t)")
        case False
        with 1(2) show ?thesis by (subst split_loop_no_newline.simps) simp
      next
        case True
        obtain s' c' where sw: "split_window t cs ov start chunks = (s', c')" by fastforce
        then have sw': "split_window_no_newline t cs ov start chunks = (s', c')"
          using split_window_no_newline_eq[OF nl] by simp
        show ?thesis
        proof (cases "s' \<ge> int (length t)")
          case True
          with 1(2) \<open>start < int (length t)\<close> sw sw' show ?thesis
            by (subst split_loop_no_newline.simps) simp
        next
          case False
          with 1(2) \<open>start < int (length t)\<close> sw have "loop t cs ov s' c' = Some y" by simp
          then have "split_loop_no_newline t cs ov s' c' = Some y" using 1(1) nl by blast
          with False \<open>start < int (length t)\<close> sw' show ?thesis
            by (subst split_loop_no_newline.simps) simp
        qed
      qed
    qed
  next
    case 2
    show ?case by (rule assms(1))
  qed
  then show ?thesis using assms(2) by simp
qed

lemma split_loop_no_newline_imp:
  assumes "split_loop_no_newline t cs ov start chunks = Some y" and "CHR 0x0A \<notin> set t"
  shows "split_loop t cs ov start chunks = Some y"
proof -
  have "CHR 0x0A \<notin> set t \<longrightarrow> split_loop t cs ov start chunks = Some y"
  proof (rule split_loop_no_newline.raw_induct[where P = "\<lambda>t cs ov start chunks y.
      CHR 0x0A \<notin> set t \<longrightarrow> split_loop t cs ov start chunks = Some y"], goal_cases)
    case (1 loop t cs ov start chunks y)
    show ?case
    proof
      assume nl: "CHR 0x0A \<notin> set t"
      show "split_loop t cs ov start chunks = Some y"
      proof (cases "start < int (length t)")
        case False
        with 1(2) show ?thesis by (subst split_loop.simps) simp
      next
        case True
        obtain s' c' where sw: "split_window_no_newline t cs ov start chunks = (s', c')" by fastforce
        then have sw': "split_window t cs ov start chunks = (s', c')"
          using split_window_no_newline_eq[OF nl] by simp
        show ?thesis
        proof (cases "s' \<ge> int (length t)")
          case True
          with 1(2) \<open>start < int (length t)\<close> sw sw' show ?thesis
            by (subst split_loop.simps) simp
        next
          case False
          with 1(2) \<open>start < int (length t)\<close> sw have "loop t cs ov s' c' = Some y" by simp
          then have "split_loop t cs ov s' c' = Some y" using 1(1) nl by blast
          with False \<open>start < int (length t)\<close> sw' show ?thesis
            by (subst split_loop.simps) simp
        qed
      qed
    qed
  next
    case 2
    show ?case by (rule assms(1))
  qed
  then show ?thesis using assms(2) by simp
qed

lemma split_loop_no_newline_eq:
  assumes "CHR 0x0A \<notin> set t"
  shows "split_loop t cs ov start chunks = split_loop_no_newline t cs ov start chunks"
proof (cases "split_loop t cs ov start chunks")
  case None
  show ?thesis
  proof (cases "split_loop_no_newline t cs ov start chunks")
    case None
    with \<open>split_loop t cs ov start chunks = None\<close> show ?thesis by simp
  next
    case (Some y)
    then have "split_loop t cs ov start chunks = Some y"
      using assms by (rule split_loop_no_newline_imp)
    with None show ?thesis by simp
  qed
next
  case (Some y)
  then have "split_loop_no_newline t cs ov start chunks = Some y"
    using assms by (rule split_loop_imp_no_newline)
  with Some show ?thesis by simp
qed

text \<open>
  C10: the normalization leaves no whitespace but the space, hence no newline, in the text
  the loop works on; the search for a newline in a window therefore answers -1, each pass
  of the loop computes what the pass without the newline preference computes, and
  \<open>split_into_chunks\<close> equals the variant without the newline preference (on every
  input, the loop that never ends included). In that variant a window that does not reach
  the end of the text ends at its last sentence terminator beyond the overlap, or at the
  chunk size.
\<close>

theorem newline_preference_is_dead:
  "(\<forall>c \<in> set (clean_text txt). is_space c \<longrightarrow> c = CHR '' '') \<and>
   CHR 0x0A \<notin> set (clean_text txt) \<and>
   rfind (py_slice (clean_text txt) i j) (CHR 0x0A) = - 1 \<and>
   split_window (clean_text txt) n ov start chunks =
     split_window_no_newline (clean_text txt) n ov start chunks \<and>
   split_into_chunks cfg txt chunk_size ov = split_into_chunks_no_newline cfg txt chunk_size ov"
proof -
  have nl: "CHR 0x0A \<notin> set (clean_text txt)" by (rule clean_text_no_newline)
  have "rfind (py_slice (clean_text txt) i j) (CHR 0x0A) = - 1"
    using nl set_py_slice by (intro rfind_notin) blast
  moreover have "split_into_chunks cfg txt chunk_size ov
      = split_into_chunks_no_newline cfg txt chunk_size ov"
    unfolding split_into_chunks_def split_into_chunks_no_newline_def Let_def
    by (simp add: split_loop_no_newline_eq[OF nl])
  ultimately show ?thesis
    using nl clean_text_space split_window_no_newline_eq[OF nl] by blast
qed

theorem newline_preference_is_dead_witness:
  "clean_text [CHR ''a'', CHR 0x0A, CHR 0x0A, CHR ''b'', CHR ''c''] = ''a bc'' \<and>
   CHR '' '' \<in> set (clean_text [CHR ''a'', CHR 0x0A, CHR 0x0A, CHR ''b'', CHR ''c'']) \<and>
   is_space (CHR '' '') \<and>
   split_window ''a bc'' 2 1 0 [] = split_window_no_newline ''a bc'' 2 1 0 [] \<and>
   split_into_chunks runtime_config [CHR ''a'', CHR 0x0A, CHR 0x0A, CHR ''b'', CHR ''c''] (Some 2) 1 =
     split_into_chunks_no_newline runtime_config
       [CHR ''a'', CHR 0x0A, CHR 0x0A, CHR ''b'', CHR ''c''] (Some 2) 1"
proof -
  have c: "clean_text [CHR ''a'', CHR 0x0A, CHR 0x0A, CHR ''b'', CHR ''c''] = ''a bc''"
    by code_simp
  have s: "is_space (CHR '' '')"
    by (simp add: is_space_def)
  show ?thesis
    using newline_preference_is_dead
      [of "[CHR ''a'', CHR 0x0A, CHR 0x0A, CHR ''b'', CHR ''c'']" 0 0 2 1 0 "[]"
          runtime_config "Some 2"]
    by (simp add: c s)
qed

section \<open>The segmentation loop\<close>

lemma py_slice_nonneg:
  "0 \<le> i \<Longrightarrow> i \<le> j \<Longrightarrow> j \<le> int (length s) \<Longrightarrow>
   py_slice s i j = take (nat (j - i)) (drop (nat i) s)"
  by (simp add: py_slice_def py_index_def Let_def)

lemma length_py_slice:
  "0 \<le> i \<Longrightarrow> i \<le> j \<Longrightarrow> j \<le> int (length s) \<Longrightarrow> int (length (py_slice s i j)) = j - i"
  by (simp add: py_slice_nonneg)

lemma split_window_last:
  assumes "0 \<le> start" and "start < int (length t)" and "int (length t) \<le> start + cs"
  shows "split_window t cs ov start chunks
         = (int (length t), chunks @ [py_strip (drop (nat start) t)])"
proof -
  have m: "min (start + cs) (int (length t)) = int (length t)"
    using assms by simp
  have sl: "py_slice t start (int (length t)) = drop (nat start) t"
    using assms by (simp add: py_slice_nonneg)
  show ?thesis
    by (simp only: split_window_def Let_def m sl less_irrefl if_False)
qed

lemma split_window_inner:
  assumes "0 \<le> ov" and "ov < cs" and "0 \<le> start" and "start + cs < int (length t)"
  shows "\<exists>e. start + ov < e \<and> e \<le> start + cs \<and>
           split_window t cs ov start chunks
             = (e - ov, chunks @ [py_strip (py_slice t start e)])"
proof -
  define area where "area = py_slice t start (start + cs)"
  define lse where
    "lse = max (max (rfind area CHR ''.'') (rfind area CHR ''?'')) (rfind area CHR ''!'')"
  define nlr where "nlr = rfind area (CHR 0x0A)"
  define b1 where "b1 = (if lse > ov then lse else - 1)"
  define b2 where "b2 = (if nlr > ov \<and> nlr > b1 then nlr else b1)"
  have m: "min (start + cs) (int (length t)) = start + cs"
    using assms by simp
  have la: "int (length area) = cs"
    unfolding area_def using assms by (simp add: length_py_slice)
  have "lse < cs"
    unfolding lse_def using rfind_lt[of area] la by simp
  moreover have "nlr < cs"
    unfolding nlr_def using rfind_lt[of area] la by simp
  ultimately have b2: "b2 = - 1 \<or> (ov < b2 \<and> b2 < cs)"
    unfolding b2_def b1_def by auto
  have sw: "split_window t cs ov start chunks =
      (if b2 \<noteq> - 1
       then (start + b2 + 1 - ov, chunks @ [py_strip (py_slice t start (start + b2 + 1))])
       else (start + cs - ov, chunks @ [py_strip (py_slice t start (start + cs))]))"
    by (simp only: split_window_def Let_def m assms(4) if_True
        b2_def b1_def nlr_def lse_def area_def)
  show ?thesis
  proof (cases "b2 = - 1")
    case True
    with sw assms show ?thesis by (intro exI[of _ "start + cs"]) simp
  next
    case False
    with b2 have "ov < b2" "b2 < cs" by simp_all
    with sw False show ?thesis by (intro exI[of _ "start + b2 + 1"]) simp
  qed
qed

lemma split_window_nosplit:
  assumes "\<forall>c \<in> set t. c \<notin> {CHR ''.'', CHR ''?'', CHR ''!'', CHR 0x0A}"
    and "start + cs < int (length t)"
  shows "split_window t cs ov start chunks
         = (start + cs - ov, chunks @ [py_strip (py_slice t start (start + cs))])"
proof -
  define area where "area = py_slice t start (start + cs)"
  have sub: "set area \<subseteq> set t" unfolding area_def by (rule set_py_slice)
  have r: "rfind area CHR ''.'' = - 1" "rfind area CHR ''?'' = - 1"
    "rfind area CHR ''!'' = - 1" "rfind area (CHR 0x0A) = - 1"
    using assms(1) sub by (auto intro!: rfind_notin)
  have m: "min (start + cs) (int (length t)) = start + cs"
    using assms by simp
  show ?thesis
    apply (simp only: split_window_def Let_def m assms(2) if_True r[unfolded area_def])
    by simp
qed

lemma split_window_stuck:
  assumes "\<forall>c \<in> set t. c \<notin> {CHR ''.'', CHR ''?'', CHR ''!'', CHR 0x0A}"
    and "cs < int (length t)"
  shows "split_window t cs cs 0 chunks = (0, chunks @ [py_strip (py_slice t 0 cs)])"
  using split_window_nosplit[OF assms(1), of 0 cs cs chunks] assms(2) by simp

lemma split_loop_stuck:
  assumes "\<forall>c \<in> set t. c \<notin> {CHR ''.'', CHR ''?'', CHR ''!'', CHR 0x0A}"
    and "0 \<le> cs" and "cs < int (length t)"
  shows "split_loop t cs cs 0 chunks = None"
proof (rule ccontr)
  assume "split_loop t cs cs 0 chunks \<noteq> None"
  then obtain y where y: "split_loop t cs cs 0 chunks = Some y" by blast
  have "\<not> (t = t \<and> cs = cs \<and> cs = cs \<and> (0::int) = 0)"
  proof (rule split_loop.raw_induct[where P = "\<lambda>t' cs' ov' start' chunks' y.
      \<not> (t' = t \<and> cs' = cs \<and> ov' = cs \<and> start' = 0)", OF _ y], goal_cases)
    case (1 loop t' cs' ov' start' chunks' y')
    show ?case
    proof
      assume eq: "t' = t \<and> cs' = cs \<and> ov' = cs \<and> start' = 0"
      from eq have a: "t' = t" "cs' = cs" "ov' = cs" "start' = 0" by simp_all
      have ne: "0 < int (length t)" "\<not> int (length t) \<le> 0"
        using assms(2,3) by auto
      have "loop t cs cs 0 (chunks' @ [py_strip (py_slice t 0 cs)]) = Some y'"
        using 1(2) unfolding a split_window_stuck[OF assms(1,3), of chunks']
        by (simp only: ne if_True if_False prod.case)
      then show False using 1(1) by blast
    qed
  qed
  then show False by simp
qed

lemma sub_spaces_replicate:
  "\<not> is_space a \<Longrightarrow> sub_spaces (replicate n a @ r) = replicate n a @ sub_spaces r"
  by (induction n) simp_all

lemma dropWhile_replicate_append:
  "\<not> P a \<Longrightarrow> 0 < n \<Longrightarrow> dropWhile P (replicate n a @ r) = replicate n a @ r"
  by (cases n) simp_all

lemma py_strip_id:
  assumes "s \<noteq> []" and "\<not> is_space (hd s)" and "\<not> is_space (last s)"
  shows "py_strip s = s"
proof -
  have 1: "dropWhile is_space s = s"
    using assms(1,2) by (cases s) simp_all
  have 2: "dropWhile is_space (rev s) = rev s"
    using assms(1,3) by (cases "rev s") (simp_all add: last_rev[symmetric] del: last_rev)
  show ?thesis by (simp add: py_strip_def 1 2)
qed

lemma is_word_a: "is_word CHR ''a''" "\<not> is_space CHR ''a''"
  by (simp_all add: is_word_def is_space_def)

lemma clean_a: "0 < n \<Longrightarrow> clean_text (replicate n CHR ''a'') = replicate n CHR ''a''"
proof -
  assume n: "0 < n"
  have 1: "sub_spaces (replicate n CHR ''a'') = replicate n CHR ''a''"
    using sub_spaces_replicate[of "CHR ''a''" n "[]"] is_word_a by simp
  have 2: "py_strip (replicate n CHR ''a'') = replicate n CHR ''a''"
    using n is_word_a by (intro py_strip_id) (simp_all add: hd_replicate last_replicate)
  show ?thesis
    by (simp add: clean_text_def 1 2 is_word_a)
qed

text \<open>
  C1: with the smallest small-tier size the settings offer, 100, and the default overlap of
  100, the fallback cut leaves the cursor where it was: on a text of 101 letters the loop
  never ends. The segmentation does not terminate for every chunk size from 1 on.
\<close>

theorem split_into_chunks_diverges:
  "split_into_chunks runtime_config (replicate 101 CHR ''a'') (Some 100) 100 = None"
proof -
  have "split_loop (replicate 101 CHR ''a'') 100 100 0 [] = None"
    by (rule split_loop_stuck) simp_all
  then show ?thesis
    by (simp add: split_into_chunks_def clean_a)
qed

section \<open>Chunks as trimmed windows\<close>

lemma windows_from_nonempty: "windows_from t cs ov s ws \<Longrightarrow> ws \<noteq> []"
  by (cases ws) simp_all

lemma windows_from_Cons:
  "ws \<noteq> [] \<Longrightarrow>
   windows_from t cs ov s (w # ws) =
     (ov < length w \<and> length w \<le> cs \<and> s + length w < length t \<and>
      w = take (length w) (drop s t) \<and> windows_from t cs ov (s + length w - ov) ws)"
  by (cases ws) simp_all

lemma split_loop_windows:
  assumes "0 \<le> ov" and "ov < cs"
  shows "0 \<le> start \<Longrightarrow> start < int (length t) \<Longrightarrow>
         \<exists>ws. split_loop t cs ov start chunks = Some (chunks @ map py_strip ws) \<and>
              windows_from t (nat cs) (nat ov) (nat start) ws"
proof (induction "nat (int (length t) - start)" arbitrary: start chunks rule: less_induct)
  case less
  show ?case
  proof (cases "int (length t) \<le> start + cs")
    case True
    have sw: "split_window t cs ov start chunks
              = (int (length t), chunks @ [py_strip (drop (nat start) t)])"
      using less.prems True by (intro split_window_last) simp_all
    have "split_loop t cs ov start chunks = Some (chunks @ map py_strip [drop (nat start) t])"
      using less.prems by (subst split_loop.simps) (simp add: sw)
    moreover have "windows_from t (nat cs) (nat ov) (nat start) [drop (nat start) t]"
      using less.prems True by (simp add: nat_less_iff nat_le_iff)
    ultimately show ?thesis by blast
  next
    case False
    then have lt: "start + cs < int (length t)" by simp
    from split_window_inner[OF assms less.prems(1) lt, of chunks]
    obtain e where e: "start + ov < e" "e \<le> start + cs"
      and sw: "split_window t cs ov start chunks
               = (e - ov, chunks @ [py_strip (py_slice t start e)])"
      by blast
    define w where "w = py_slice t start e"
    have w: "w = take (nat (e - start)) (drop (nat start) t)"
      unfolding w_def using less.prems e lt assms by (intro py_slice_nonneg) simp_all
    have lw: "length w = nat (e - start)"
      unfolding w using e lt less.prems by simp
    have s': "0 \<le> e - ov" "e - ov < int (length t)"
      using e lt less.prems assms by simp_all
    have dec: "nat (int (length t) - (e - ov)) < nat (int (length t) - start)"
      using e lt less.prems by simp
    from less.hyps[OF dec s', of "chunks @ [py_strip w]"]
    obtain ws where ws: "split_loop t cs ov (e - ov) (chunks @ [py_strip w])
                         = Some ((chunks @ [py_strip w]) @ map py_strip ws)"
      and wf: "windows_from t (nat cs) (nat ov) (nat (e - ov)) ws"
      by blast
    have "split_loop t cs ov start chunks = Some (chunks @ map py_strip (w # ws))"
      using less.prems s' ws by (subst split_loop.simps) (simp add: sw w_def)
    moreover have "windows_from t (nat cs) (nat ov) (nat start) (w # ws)"
    proof -
      have ne: "ws \<noteq> []" using wf by (rule windows_from_nonempty)
      have pos: "nat start + length w - nat ov = nat (e - ov)"
        using lw e less.prems assms by simp
      have "nat ov < length w" using lw e assms by simp
      moreover have "length w \<le> nat cs" using lw e by simp
      moreover have "nat start + length w < length t" using lw e lt less.prems by simp
      moreover have "w = take (length w) (drop (nat start) t)" using w lw by simp
      ultimately show ?thesis
        using wf by (simp add: windows_from_Cons[OF ne] pos)
    qed
    ultimately show ?thesis by blast
  qed
qed

lemma windows_from_head:
  "windows_from t cs ov s (w # ws) \<Longrightarrow>
     s < length t \<and> w = take (length w) (drop s t) \<and> s + length w \<le> length t \<and>
     w \<noteq> [] \<and> length w \<le> cs \<and> (s + ov < length t \<longrightarrow> ov < length w)"
  by (cases ws) auto

lemma shared_overlap_exact:
  "k \<le> length a \<Longrightarrow> k \<le> length b \<Longrightarrow> drop (length a - k) a = take k b \<Longrightarrow>
   shared_overlap k a b = k"
  by (cases k) simp_all

lemma shared_overlap_le: "shared_overlap k a b \<le> k"
  by (induction k) auto

lemma windows_from_overlap:
  "windows_from t cs ov s ws \<Longrightarrow> Suc i < length ws \<Longrightarrow>
     ov < length (ws ! i) \<and> ov < length (ws ! Suc i) \<and>
     drop (length (ws ! i) - ov) (ws ! i) = take ov (ws ! Suc i)"
proof (induction ws arbitrary: s i)
  case Nil
  then show ?case by simp
next
  case (Cons w ws)
  then obtain w' ws' where ws: "ws = w' # ws'" by (cases ws) auto
  from Cons.prems ws have a: "ov < length w" "s + length w < length t"
    "w = take (length w) (drop s t)"
    and wf: "windows_from t cs ov (s + length w - ov) ws"
    by simp_all
  show ?case
  proof (cases i)
    case 0
    have "s + length w - ov + ov < length t" using a by simp
    with windows_from_head[OF wf[unfolded ws]] have h: "ov < length w'"
      "w' = take (length w') (drop (s + length w - ov) t)" by blast+
    have "take ov w' = take ov (drop (s + length w - ov) t)"
      using h by (metis less_imp_le_nat min.absorb2 take_take min.commute)
    moreover have "drop (length w - ov) w = take ov (drop (s + length w - ov) t)"
    proof -
      have "drop (length w - ov) w = drop (length w - ov) (take (length w) (drop s t))"
        using a(3) by simp
      also have "\<dots> = take (length w - (length w - ov)) (drop (length w - ov) (drop s t))"
        by (simp only: drop_take)
      also have "\<dots> = take ov (drop (s + length w - ov) t)"
        using a by (simp add: add.commute)
      finally show ?thesis .
    qed
    ultimately show ?thesis using 0 ws a h by simp
  next
    case (Suc j)
    with Cons.prems have "Suc j < length ws" by simp
    from Cons.IH[OF wf this] show ?thesis using Suc by simp
  qed
qed

lemma windows_from_remove_overlaps:
  "windows_from t cs ov s ws \<Longrightarrow> remove_overlaps ov ws = drop s t"
proof (induction ov ws arbitrary: s rule: remove_overlaps.induct)
  case (1 ov)
  then show ?case by simp
next
  case (2 ov c)
  then show ?case by simp
next
  case (3 ov w w' ws)
  from "3.prems" have a: "ov < length w" "s + length w < length t"
    "w = take (length w) (drop s t)"
    and wf: "windows_from t cs ov (s + length w - ov) (w' # ws)"
    by simp_all
  from windows_from_overlap[OF "3.prems", of 0]
  have o: "ov < length w'" "drop (length w - ov) w = take ov w'" by simp_all
  have sh: "shared_overlap ov w w' = ov"
    using a(1) o by (intro shared_overlap_exact) simp_all
  have "remove_overlaps ov (w # w' # ws) = w @ drop ov (drop (s + length w - ov) t)"
    using "3.IH"[OF wf] sh by simp
  also have "\<dots> = take (length w) (drop s t) @ drop (length w) (drop s t)"
    using a by (simp add: add.commute)
  finally show ?case by (simp only: append_take_drop_id)
qed

lemma windows_from_all:
  "windows_from t cs ov s ws \<Longrightarrow> w \<in> set ws \<Longrightarrow> w \<noteq> [] \<and> length w \<le> cs"
proof (induction ws arbitrary: s)
  case Nil
  then show ?case by simp
next
  case (Cons a ws)
  show ?case
  proof (cases "w = a")
    case True
    with windows_from_head[OF Cons.prems(1)] show ?thesis by simp
  next
    case False
    with Cons.prems have in_ws: "w \<in> set ws" by simp
    then have "ws \<noteq> []" by auto
    with Cons.prems(1) have "windows_from t cs ov (s + length a - ov) ws"
      by (simp add: windows_from_Cons)
    from Cons.IH[OF this in_ws] show ?thesis .
  qed
qed

lemma last_dropWhile: "dropWhile P xs \<noteq> [] \<Longrightarrow> last (dropWhile P xs) = last xs"
  by (induction xs) (auto split: if_splits)

lemma py_strip_ends:
  assumes "py_strip s \<noteq> []"
  shows "\<not> is_space (hd (py_strip s)) \<and> \<not> is_space (last (py_strip s))"
proof -
  define u where "u = dropWhile is_space s"
  define v where "v = dropWhile is_space (rev u)"
  have ps: "py_strip s = rev v" by (simp add: py_strip_def u_def v_def)
  with assms have v: "v \<noteq> []" by simp
  then have u: "u \<noteq> []" unfolding v_def by auto
  have "\<not> is_space (hd v)" using v unfolding v_def by (rule hd_dropWhile)
  then have l: "\<not> is_space (last (rev v))" using v by (simp add: last_rev)
  have "last v = last (rev u)" using v unfolding v_def by (rule last_dropWhile)
  also have "\<dots> = hd u" using u by (simp add: last_rev)
  finally have "hd (rev v) = hd u" using v by (simp add: hd_rev)
  moreover have "\<not> is_space (hd u)" using u unfolding u_def by (rule hd_dropWhile)
  ultimately show ?thesis using l ps by simp
qed

lemma py_strip_idem: "py_strip (py_strip s) = py_strip s"
proof (cases "py_strip s = []")
  case True
  have "py_strip [] = []" by (simp add: py_strip_def)
  then show ?thesis by (simp only: True)
next
  case False
  with py_strip_ends[OF False] show ?thesis by (intro py_strip_id) simp_all
qed

lemma py_strip_clean_text: "py_strip (clean_text s) = clean_text s"
  by (simp add: clean_text_def Let_def py_strip_idem)

text \<open>
  C2, as the code has it: for an overlap that is not negative and a chunk size above it,
  the segmentation returns. The chunks it returns are not empty, and they are the trimmed
  forms of a sequence of windows of the normalized text (windows that trim to nothing are
  dropped). The windows are not empty and no longer than the chunk size; each window but
  the last is longer than the overlap and its last \<open>overlap\<close> characters are the first
  \<open>overlap\<close> characters of the next window; and the concatenation of the windows with
  the overlapping regions removed is the normalized text, exactly.
\<close>

theorem chunks_are_trimmed_windows:
  assumes "0 \<le> ov" and "ov < n"
  shows "\<exists>ws chunks.
           split_into_chunks cfg txt (Some n) ov = Some chunks \<and>
           chunks = filter (\<lambda>c. c \<noteq> []) (map py_strip ws) \<and>
           (\<forall>c \<in> set chunks. c \<noteq> []) \<and>
           (\<forall>w \<in> set ws. w \<noteq> [] \<and> int (length w) \<le> n) \<and>
           (\<forall>i. Suc i < length ws \<longrightarrow>
                nat ov < length (ws ! i) \<and> nat ov < length (ws ! Suc i) \<and>
                drop (length (ws ! i) - nat ov) (ws ! i) = take (nat ov) (ws ! Suc i)) \<and>
           remove_overlaps (nat ov) ws = clean_text txt"
proof (cases "int (length (clean_text txt)) \<le> n")
  case True
  define ws where "ws = (if clean_text txt = [] then [] else [clean_text txt])"
  have "split_into_chunks cfg txt (Some n) ov = Some ws"
    using True by (simp add: split_into_chunks_def ws_def)
  moreover have "ws = filter (\<lambda>c. c \<noteq> []) (map py_strip ws)"
    by (simp add: ws_def py_strip_clean_text)
  moreover have "\<forall>c \<in> set ws. c \<noteq> [] \<and> int (length c) \<le> n"
    using True by (simp add: ws_def)
  moreover have "\<forall>i. Suc i < length ws \<longrightarrow>
                nat ov < length (ws ! i) \<and> nat ov < length (ws ! Suc i) \<and>
                drop (length (ws ! i) - nat ov) (ws ! i) = take (nat ov) (ws ! Suc i)"
    by (simp add: ws_def)
  moreover have "remove_overlaps (nat ov) ws = clean_text txt"
    by (simp add: ws_def)
  ultimately show ?thesis by blast
next
  case False
  define t where "t = clean_text txt"
  have len: "0 < int (length t)" using False assms unfolding t_def by linarith
  from split_loop_windows[OF assms _ len, of "[]"]
  obtain ws where loop: "split_loop t n ov 0 [] = Some (map py_strip ws)"
    and wf: "windows_from t (nat n) (nat ov) 0 ws"
    by auto
  define chunks where "chunks = filter (\<lambda>c. c \<noteq> []) (map py_strip ws)"
  have 1: "split_into_chunks cfg txt (Some n) ov = Some chunks"
    using False loop by (simp add: split_into_chunks_def chunks_def t_def[symmetric])
  have 2: "\<forall>c \<in> set chunks. c \<noteq> []" by (simp add: chunks_def)
  have 3: "\<forall>w \<in> set ws. w \<noteq> [] \<and> int (length w) \<le> n"
  proof
    fix w assume "w \<in> set ws"
    from windows_from_all[OF wf this] have "w \<noteq> []" "length w \<le> nat n" by simp_all
    then show "w \<noteq> [] \<and> int (length w) \<le> n" using assms by linarith
  qed
  have 4: "\<forall>i. Suc i < length ws \<longrightarrow>
                nat ov < length (ws ! i) \<and> nat ov < length (ws ! Suc i) \<and>
                drop (length (ws ! i) - nat ov) (ws ! i) = take (nat ov) (ws ! Suc i)"
    using windows_from_overlap[OF wf] by blast
  have 5: "remove_overlaps (nat ov) ws = clean_text txt"
    using windows_from_remove_overlaps[OF wf] by (simp add: t_def)
  show ?thesis using 1 2 3 4 5 chunks_def by blast
qed

theorem chunks_are_trimmed_windows_witness:
  "(0::int) \<le> 4 \<and> (4::int) < 12 \<and>
   (\<exists>ws chunks.
      split_into_chunks runtime_config ''Alpha sentence. Beta sentence! Gamma sentence?'' (Some 12) 4
        = Some chunks \<and>
      chunks = filter (\<lambda>c. c \<noteq> []) (map py_strip ws) \<and>
      (\<forall>c \<in> set chunks. c \<noteq> []) \<and>
      (\<forall>w \<in> set ws. w \<noteq> [] \<and> int (length w) \<le> 12) \<and>
      (\<forall>i. Suc i < length ws \<longrightarrow>
           nat 4 < length (ws ! i) \<and> nat 4 < length (ws ! Suc i) \<and>
           drop (length (ws ! i) - nat 4) (ws ! i) = take (nat 4) (ws ! Suc i)) \<and>
      remove_overlaps (nat 4) ws
        = clean_text ''Alpha sentence. Beta sentence! Gamma sentence?'')"
  using chunks_are_trimmed_windows
    [of 4 12 runtime_config "''Alpha sentence. Beta sentence! Gamma sentence?''"]
  by simp

lemma is_word_b: "is_word CHR ''b''" "\<not> is_space CHR ''b''"
  by (simp_all add: is_word_def is_space_def)

lemma is_space_sp: "is_space CHR '' ''"
  by (simp add: is_space_def)

lemma dropWhile_spaces:
  "dropWhile is_space (replicate m CHR '' '' @ r) = dropWhile is_space r"
  by (induction m) (simp_all add: is_space_sp)

lemma py_strip_padded:
  assumes "\<not> is_space c" and "0 < n"
  shows "py_strip (replicate m CHR '' '' @ replicate n c @ replicate k CHR '' '') = replicate n c"
proof -
  have "dropWhile is_space (replicate n c @ replicate k CHR '' '')
        = replicate n c @ replicate k CHR '' ''"
    using assms by (rule dropWhile_replicate_append)
  then have 1: "dropWhile is_space (replicate m CHR '' '' @ replicate n c @ replicate k CHR '' '')
           = replicate n c @ replicate k CHR '' ''"
    by (simp only: dropWhile_spaces)
  have r: "rev (replicate n c @ replicate k CHR '' '') = replicate k CHR '' '' @ replicate n c @ []"
    by simp
  have "dropWhile is_space (replicate n c @ []) = replicate n c @ []"
    using assms by (rule dropWhile_replicate_append)
  then have 2: "dropWhile is_space (rev (replicate n c @ replicate k CHR '' '')) = replicate n c"
    by (simp only: r dropWhile_spaces append_Nil2)
  show ?thesis
    by (simp only: py_strip_def 1 2 rev_replicate)
qed

lemma sub_spaces_gap:
  "sub_spaces (concat (replicate n '' @'') @ r) = concat (replicate n '' @'') @ sub_spaces r"
  by (induction n) (simp_all add: is_space_def)

lemma filter_gap:
  "filter (\<lambda>c. is_word c \<or> is_space c \<or> c \<in> kept_punctuation) (concat (replicate n '' @''))
   = replicate n CHR '' ''"
  by (induction n) (simp_all add: is_space_def is_word_def kept_punctuation_def)

lemma gap_text_clean: "clean_text gap_text = gap_clean"
proof -
  have b: "sub_spaces (replicate 300 CHR ''b'') = replicate 300 CHR ''b''"
    using sub_spaces_replicate[of "CHR ''b''" 300 "[]"] is_word_b by simp
  have 1: "sub_spaces gap_text = gap_text"
    unfolding gap_text_def
    by (simp only: sub_spaces_replicate[OF is_word_a(2)] sub_spaces_gap b)
  have 2: "filter (\<lambda>c. is_word c \<or> is_space c \<or> c \<in> kept_punctuation) gap_text = gap_clean"
    unfolding gap_text_def gap_clean_def
    by (simp add: filter_gap is_word_a is_word_b)
  have 3: "py_strip gap_clean = gap_clean"
    unfolding gap_clean_def
    by (rule py_strip_id) (simp_all add: is_word_a is_word_b)
  show ?thesis
    by (simp add: clean_text_def 1 2 3)
qed

lemma gap_clean_loop:
  "split_loop gap_clean 300 100 0 []
   = Some [replicate 200 CHR ''a'', replicate 200 CHR ''b'', replicate 200 CHR ''b'']"
proof -
  have len: "int (length gap_clean) = 600" by (simp add: gap_clean_def)
  have ns: "\<forall>c \<in> set gap_clean. c \<notin> {CHR ''.'', CHR ''?'', CHR ''!'', CHR 0x0A}"
    by (simp add: gap_clean_def)
  have w0: "split_window gap_clean 300 100 0 [] = (200, [py_strip (py_slice gap_clean 0 300)])"
    using split_window_nosplit[OF ns, of 0 300 100 "[]"] len by simp
  have s0: "py_slice gap_clean 0 300
            = replicate 0 CHR '' '' @ replicate 200 CHR ''a'' @ replicate 100 CHR '' ''"
    by (simp add: py_slice_nonneg len) (simp add: gap_clean_def)
  have c0: "py_strip (py_slice gap_clean 0 300) = replicate 200 CHR ''a''"
    unfolding s0 by (rule py_strip_padded) (simp_all add: is_word_a)
  have w1: "split_window gap_clean 300 100 200 [replicate 200 CHR ''a'']
            = (400, [replicate 200 CHR ''a''] @ [py_strip (py_slice gap_clean 200 500)])"
    using split_window_nosplit[OF ns, of 200 300 100 "[replicate 200 CHR ''a'']"] len by simp
  have s1: "py_slice gap_clean 200 500
            = replicate 100 CHR '' '' @ replicate 200 CHR ''b'' @ replicate 0 CHR '' ''"
    by (simp add: py_slice_nonneg len) (simp add: gap_clean_def)
  have c1: "py_strip (py_slice gap_clean 200 500) = replicate 200 CHR ''b''"
    unfolding s1 by (rule py_strip_padded) (simp_all add: is_word_b)
  have w2: "split_window gap_clean 300 100 400 [replicate 200 CHR ''a'', replicate 200 CHR ''b'']
            = (600, [replicate 200 CHR ''a'', replicate 200 CHR ''b'']
                    @ [py_strip (drop 400 gap_clean)])"
    using split_window_last[of 400 gap_clean 300 100
        "[replicate 200 CHR ''a'', replicate 200 CHR ''b'']"] len by simp
  have s2: "drop 400 gap_clean = replicate 200 CHR ''b''"
    by (simp add: gap_clean_def)
  have c2: "py_strip (drop 400 gap_clean) = replicate 200 CHR ''b''"
    unfolding s2 by (rule py_strip_id) (simp_all add: is_word_b)
  have l2: "split_loop gap_clean 300 100 400 [replicate 200 CHR ''a'', replicate 200 CHR ''b'']
            = Some [replicate 200 CHR ''a'', replicate 200 CHR ''b'', replicate 200 CHR ''b'']"
    by (subst split_loop.simps) (simp add: w2 c2 len)
  have l1: "split_loop gap_clean 300 100 200 [replicate 200 CHR ''a'']
            = Some [replicate 200 CHR ''a'', replicate 200 CHR ''b'', replicate 200 CHR ''b'']"
    by (subst split_loop.simps) (simp add: w1 c1 len l2)
  show ?thesis
    by (subst split_loop.simps) (simp add: w0 c0 len l1)
qed

lemma set_remove_overlaps: "set (remove_overlaps ov cs) \<subseteq> set (concat cs)"
proof (induction ov cs rule: remove_overlaps.induct)
  case (3 ov c c' cs)
  have "set (drop (shared_overlap ov c c') (remove_overlaps ov (c' # cs)))
        \<subseteq> set (remove_overlaps ov (c' # cs))"
    by (rule set_drop_subset)
  with 3 show ?case by auto
qed simp_all

text \<open>
  C2 as stated fails: chunks are trimmed, and a window of nothing but spaces leaves no
  trace. With chunk size 300 and the default overlap, the text of 200 letters, a hundred
  times a space and an at sign, and 300 letters is normalized to 200 letters, 100 spaces and
  300 letters, and segmented into three chunks of 200 letters each. No chunk holds a space,
  so no concatenation of parts of the chunks is the normalized text; the concatenation
  with the overlapping regions removed has 500 characters, not 600.
\<close>

theorem reconstruction_counterexample:
  "split_into_chunks runtime_config
     (replicate 200 CHR ''a'' @ concat (replicate 100 '' @'') @ replicate 300 CHR ''b'')
     (Some 300) 100
   = Some [replicate 200 CHR ''a'', replicate 200 CHR ''b'', replicate 200 CHR ''b''] \<and>
   clean_text (replicate 200 CHR ''a'' @ concat (replicate 100 '' @'') @ replicate 300 CHR ''b'')
   = replicate 200 CHR ''a'' @ replicate 100 CHR '' '' @ replicate 300 CHR ''b'' \<and>
   CHR '' '' \<notin> set (concat [replicate 200 CHR ''a'', replicate 200 CHR ''b'',
                               replicate 200 CHR ''b'']) \<and>
   length (remove_overlaps 100
     [replicate 200 CHR ''a'', replicate 200 CHR ''b'', replicate 200 CHR ''b'']) = 500 \<and>
   remove_overlaps 100
     [replicate 200 CHR ''a'', replicate 200 CHR ''b'', replicate 200 CHR ''b'']
   \<noteq> clean_text
       (replicate 200 CHR ''a'' @ concat (replicate 100 '' @'') @ replicate 300 CHR ''b'')"
proof -
  have 1: "split_into_chunks runtime_config gap_text (Some 300) 100
     = Some [replicate 200 CHR ''a'', replicate 200 CHR ''b'', replicate 200 CHR ''b'']"
    by (simp add: split_into_chunks_def gap_text_clean gap_clean_loop) (simp add: gap_clean_def)
  have 2: "CHR '' '' \<notin> set (concat [replicate 200 CHR ''a'', replicate 200 CHR ''b'',
                               replicate 200 CHR ''b''])"
    by simp
  have ab: "shared_overlap k (replicate 200 CHR ''a'') (replicate 200 CHR ''b'') = 0" for k
    by (induction k) (auto simp: replicate_eq_replicate)
  have bb: "shared_overlap 100 (replicate 200 CHR ''b'') (replicate 200 CHR ''b'') = 100"
    by (rule shared_overlap_exact) simp_all
  have 3: "remove_overlaps 100
     [replicate 200 CHR ''a'', replicate 200 CHR ''b'', replicate 200 CHR ''b'']
     = replicate 200 CHR ''a'' @ replicate 200 CHR ''b'' @ replicate 100 CHR ''b''"
    by (simp add: ab bb)
  have 4: "remove_overlaps 100
     [replicate 200 CHR ''a'', replicate 200 CHR ''b'', replicate 200 CHR ''b'']
     \<noteq> clean_text gap_text"
  proof
    assume e: "remove_overlaps 100
     [replicate 200 CHR ''a'', replicate 200 CHR ''b'', replicate 200 CHR ''b'']
     = clean_text gap_text"
    have "CHR '' '' \<in> set (clean_text gap_text)"
      by (simp add: gap_text_clean gap_clean_def)
    with e set_remove_overlaps[of 100
        "[replicate 200 CHR ''a'', replicate 200 CHR ''b'', replicate 200 CHR ''b'']"] 2
    show False by auto
  qed
  have 5: "clean_text gap_text
           = replicate 200 CHR ''a'' @ replicate 100 CHR '' '' @ replicate 300 CHR ''b''"
    by (simp add: gap_text_clean gap_clean_def)
  show ?thesis
    using 1 2 3 4 5 unfolding gap_text_def by simp
qed

section \<open>Store and registry\<close>




lemma format_results_length:
  "format_results r = Inr hits \<Longrightarrow> length hits \<le> length (qr_documents r)"
  by (auto simp: format_results_def Let_def split: if_splits)

lemma collection_query_length:
  "collection_query dfun db nm q n = Inr r \<Longrightarrow> int (length (qr_documents r)) \<le> n"
  by (auto simp: collection_query_def Let_def split: option.splits if_splits)

text \<open>
  C9: a search never raises: every failure of the index is turned into the empty result.
  On a store whose count is zero the result is empty and the index is only asked for its
  count. Every query sent to the index carries the query string and asks for
  \<open>min(k, count)\<close> results, and the result is no longer than that.
\<close>

theorem similarity_search_clamps:
  "(get_count store w = 0 \<longrightarrow>
      fst (similarity_search dfun store w q k) = [] \<and>
      (\<forall>c \<in> set (snd (similarity_search dfun store w q k)). c = Count)) \<and>
   (\<forall>q' n. Query q' n \<in> set (snd (similarity_search dfun store w q k)) \<longrightarrow>
      q' = q \<and> n = min k (int (get_count store w)) \<and> 0 < get_count store w) \<and>
   int (length (fst (similarity_search dfun store w q k))) \<le> max 0 (min k (int (get_count store w)))"
proof (cases "collection store")
  case False
  then show ?thesis by (simp add: similarity_search_def get_count_def)
next
  case True
  show ?thesis
  proof (cases "collection_count (chroma w) (collection_name store)")
    case (Inl e)
    with True show ?thesis by (simp add: similarity_search_def get_count_def)
  next
    case (Inr count)
    show ?thesis
    proof (cases "count = 0")
      case True
      with \<open>collection store\<close> Inr show ?thesis by (simp add: similarity_search_def get_count_def)
    next
      case False
      have gc: "get_count store w = count"
        using \<open>collection store\<close> Inr by (simp add: get_count_def)
      show ?thesis
      proof (cases "collection_query dfun (chroma w) (collection_name store) q (min k (int count))")
        case (Inl e)
        with \<open>collection store\<close> Inr False gc show ?thesis
          by (simp add: similarity_search_def Let_def)
      next
        case qr: (Inr r)
        show ?thesis
        proof (cases "format_results r")
          case (Inl e)
          with \<open>collection store\<close> Inr False gc qr show ?thesis
            by (simp add: similarity_search_def Let_def)
        next
          case fr: (Inr hits)
          have "int (length hits) \<le> min k (int count)"
            using format_results_length[OF fr] collection_query_length[OF qr] by linarith
          with \<open>collection store\<close> Inr False gc qr fr show ?thesis
            by (simp add: similarity_search_def Let_def)
        qed
      qed
    qed
  qed
qed


theorem similarity_search_clamps_witness:
  "get_count ex_store ex_world = 0 \<and>
   similarity_search (\<lambda>q d. 0) ex_store ex_world [] 5 = ([], [Count]) \<and>
   get_count ex_store ex_world_two = 2 \<and>
   snd (similarity_search (\<lambda>q d. 0) ex_store ex_world_two ''second'' 5)
     = [Count, Query ''second'' 2] \<and>
   length (fst (similarity_search (\<lambda>q d. 0) ex_store ex_world_two ''second'' 5)) = 2 \<and>
   length (fst (similarity_search (\<lambda>q d. 0) ex_store ex_world_two ''second'' 1)) = 1"
proof -
  have a: "get_count ex_store ex_world = 0" "get_count ex_store ex_world_two = 2"
    by (simp_all add: get_count_def collection_count_def ex_store_def ex_world_def
        ex_world_two_def)
  have b: "similarity_search (\<lambda>q d. 0) ex_store ex_world [] 5 = ([], [Count])"
    by (simp add: similarity_search_def collection_count_def ex_store_def ex_world_def)
  have c: "snd (similarity_search (\<lambda>q d. 0) ex_store ex_world_two ''second'' 5)
     = [Count, Query ''second'' 2]"
    "length (fst (similarity_search (\<lambda>q d. 0) ex_store ex_world_two ''second'' 5)) = 2"
    "length (fst (similarity_search (\<lambda>q d. 0) ex_store ex_world_two ''second'' 1)) = 1"
    by (simp_all add: similarity_search_def collection_count_def collection_query_def
        format_results_def sort_key_def Let_def ex_store_def ex_world_two_def
        split: sum.splits)
  show ?thesis
    using similarity_search_clamps [of ex_store ex_world "\<lambda>q d. 0" "[]" 5]
      similarity_search_clamps [of ex_store ex_world_two "\<lambda>q d. 0" "''second''" 5]
    by (simp add: a b c)
qed

lemma fresh_distinct:
  "inj f \<Longrightarrow> distinct (map f [a ..< a + n])"
  by (simp add: distinct_map inj_on_def inj_def)

lemma dup_check: "(length ids \<noteq> length (remdups ids)) = (\<not> distinct ids)"
  by (metis length_remdups_eq remdups_id_iff_distinct)

lemma map_rec_id_zip:
  "length texts = length ids \<Longrightarrow> length metas = length ids \<Longrightarrow>
   map rec_id (map (\<lambda>(i, d, m). \<lparr>rec_id = i, rec_document = d, rec_metadata = m\<rparr>)
     (zip ids (zip texts metas))) = ids"
proof -
  assume l: "length texts = length ids" "length metas = length ids"
  have "map rec_id (map (\<lambda>(i, d, m). \<lparr>rec_id = i, rec_document = d, rec_metadata = m\<rparr>)
     (zip ids (zip texts metas))) = map fst (zip ids (zip texts metas))"
    by (simp add: case_prod_beta)
  also have "\<dots> = ids" using l by simp
  finally show ?thesis .
qed

lemma map_rec_document_zip:
  "length texts = length ids \<Longrightarrow> length metas = length ids \<Longrightarrow>
   map rec_document (map (\<lambda>(i, d, m). \<lparr>rec_id = i, rec_document = d, rec_metadata = m\<rparr>)
     (zip ids (zip texts metas))) = texts"
proof -
  assume l: "length texts = length ids" "length metas = length ids"
  have "map rec_document (map (\<lambda>(i, d, m). \<lparr>rec_id = i, rec_document = d, rec_metadata = m\<rparr>)
     (zip ids (zip texts metas))) = map fst (map snd (zip ids (zip texts metas)))"
    by (simp add: case_prod_beta)
  also have "\<dots> = map fst (zip texts metas)" using l by simp
  also have "\<dots> = texts" using l by simp
  finally show ?thesis .
qed

lemma collection_add_Inr:
  assumes "collection_add db nm texts metas ids = Inr db'"
  shows "\<exists>recs new. db nm = Some recs \<and> db' nm = Some (recs @ new) \<and>
           map rec_id new = filter (\<lambda>i. i \<notin> set (map rec_id recs)) ids \<and>
           (set ids \<inter> set (map rec_id recs) = {} \<longrightarrow>
              map rec_id new = ids \<and> map rec_document new = texts)"
proof -
  from assms obtain recs where r: "db nm = Some recs"
    by (auto simp: collection_add_def split: option.splits)
  define every where "every = map (\<lambda>(i, d, m). \<lparr>rec_id = i, rec_document = d, rec_metadata = m\<rparr>)
                   (zip ids (zip texts metas))"
  define new where "new = filter (\<lambda>r. rec_id r \<notin> set (map rec_id recs)) every"
  from assms r have len: "length texts = length ids" "length metas = length ids"
    and db': "db' = db(nm \<mapsto> recs @ new)"
    by (auto simp: collection_add_def new_def every_def split: if_splits)
  have e1: "map rec_id every = ids" unfolding every_def using len by (rule map_rec_id_zip)
  have e2: "map rec_document every = texts"
    unfolding every_def using len by (rule map_rec_document_zip)
  have "map rec_id new = filter (\<lambda>i. i \<notin> set (map rec_id recs)) (map rec_id every)"
    by (simp add: new_def filter_map comp_def)
  then have 1: "map rec_id new = filter (\<lambda>i. i \<notin> set (map rec_id recs)) ids"
    by (simp only: e1)
  have 2: "map rec_id new = ids \<and> map rec_document new = texts"
    if "set ids \<inter> set (map rec_id recs) = {}"
  proof -
    have "\<forall>r \<in> set every. rec_id r \<notin> set (map rec_id recs)"
    proof
      fix r assume "r \<in> set every"
      then have "rec_id r \<in> set (map rec_id every)" by simp
      with e1 that show "rec_id r \<notin> set (map rec_id recs)" by auto
    qed
    then have "new = every" by (simp add: new_def)
    with e1 e2 show ?thesis by simp
  qed
  show ?thesis using r db' 1 2 by auto
qed

text \<open>
  C5, as the code has it: a call without texts or without a collection returns the empty
  list and draws no UUID. Any other call whose supplied ids contain a duplicate uses none
  of them: one fresh UUID per text is drawn and these are the ids handed to the index. When
  the index refuses the batch the call returns the empty list; when it accepts, the call
  returns the fresh ids and the texts are stored under those of them that were not stored
  before, which is all of them, each text under its own, when none was. The UUID source is
  assumed not to repeat itself, so the fresh ids are pairwise different.
\<close>

theorem duplicate_ids_regenerated:
  assumes "\<not> distinct ids" and "inj (uuid_source w)"
  shows "let fresh = map (uuid_source w) [uuid_next w ..< uuid_next w + length texts];
             w1 = w\<lparr>uuid_next := uuid_next w + length texts\<rparr>;
             metas = (case metadatas of None \<Rightarrow> map (\<lambda>_. Map.empty) texts | Some m \<Rightarrow> m)
         in distinct fresh \<and> length fresh = length texts \<and>
            (texts = [] \<or> \<not> collection store \<longrightarrow>
               add_texts store w texts metadatas (Some ids) = ([], w)) \<and>
            (texts \<noteq> [] \<and> collection store \<longrightarrow>
               (case collection_add (chroma w) (collection_name store) texts metas fresh of
                  Inl e \<Rightarrow> add_texts store w texts metadatas (Some ids) = ([], w1)
                | Inr db \<Rightarrow>
                    add_texts store w texts metadatas (Some ids) = (fresh, w1\<lparr>chroma := db\<rparr>) \<and>
                    (\<exists>recs new. chroma w (collection_name store) = Some recs \<and>
                       db (collection_name store) = Some (recs @ new) \<and>
                       map rec_id new = filter (\<lambda>i. i \<notin> set (map rec_id recs)) fresh \<and>
                       (set fresh \<inter> set (map rec_id recs) = {} \<longrightarrow>
                          map rec_id new = fresh \<and> map rec_document new = texts))))"
proof -
  define fresh where "fresh = map (uuid_source w) [uuid_next w ..< uuid_next w + length texts]"
  define w1 where "w1 = w\<lparr>uuid_next := uuid_next w + length texts\<rparr>"
  define metas where
    "metas = (case metadatas of None \<Rightarrow> map (\<lambda>_. Map.empty) texts | Some m \<Rightarrow> m)"
  have d: "distinct fresh" unfolding fresh_def using assms(2) by (rule fresh_distinct)
  have l: "length fresh = length texts" by (simp add: fresh_def)
  have skip: "texts = [] \<or> \<not> collection store \<Longrightarrow>
      add_texts store w texts metadatas (Some ids) = ([], w)"
    by (auto simp: add_texts_def)
  have run: "add_texts store w texts metadatas (Some ids) =
      (case collection_add (chroma w) (collection_name store) texts metas fresh of
         Inl e \<Rightarrow> ([], w1) | Inr db \<Rightarrow> (fresh, w1\<lparr>chroma := db\<rparr>))"
    if "texts \<noteq> []" "collection store"
    unfolding fresh_def w1_def metas_def
    using that assms(1)
    by (simp add: add_texts_def dup_check uuid4s_def Let_def)
  have main: "case collection_add (chroma w) (collection_name store) texts metas fresh of
                  Inl e \<Rightarrow> add_texts store w texts metadatas (Some ids) = ([], w1)
                | Inr db \<Rightarrow>
                    add_texts store w texts metadatas (Some ids) = (fresh, w1\<lparr>chroma := db\<rparr>) \<and>
                    (\<exists>recs new. chroma w (collection_name store) = Some recs \<and>
                       db (collection_name store) = Some (recs @ new) \<and>
                       map rec_id new = filter (\<lambda>i. i \<notin> set (map rec_id recs)) fresh \<and>
                       (set fresh \<inter> set (map rec_id recs) = {} \<longrightarrow>
                          map rec_id new = fresh \<and> map rec_document new = texts))"
    if "texts \<noteq> []" "collection store"
  proof (cases "collection_add (chroma w) (collection_name store) texts metas fresh")
    case (Inl e)
    with run[OF that] show ?thesis by simp
  next
    case (Inr db)
    with run[OF that] collection_add_Inr[OF Inr] show ?thesis by simp
  qed
  show ?thesis
    unfolding Let_def fresh_def[symmetric] w1_def[symmetric] metas_def[symmetric]
    using d l skip main by blast
qed

lemma ex_uuid_inj: "inj ex_uuid"
proof (rule injI)
  fix x y assume "ex_uuid x = ex_uuid y"
  then have "length (ex_uuid x) = length (ex_uuid y)" by simp
  then show "x = y" by (simp add: ex_uuid_def)
qed

theorem duplicate_ids_regenerated_witness:
  "\<not> distinct [''same'', ''same''] \<and> inj (uuid_source ex_world) \<and>
   [''one'', ''two''] \<noteq> [] \<and> collection ex_store \<and>
   fst (add_texts ex_store ex_world [''one'', ''two''] (Some [ex_meta, ex_meta])
          (Some [''same'', ''same'']))
     = [''uu'', ''uuu''] \<and>
   map rec_id (the (chroma (snd (add_texts ex_store ex_world [''one'', ''two'']
                                   (Some [ex_meta, ex_meta]) (Some [''same'', ''same''])))
                      ''rag_docs_u''))
     = [''uu'', ''uuu''] \<and>
   map rec_document (the (chroma (snd (add_texts ex_store ex_world [''one'', ''two'']
                                   (Some [ex_meta, ex_meta]) (Some [''same'', ''same''])))
                      ''rag_docs_u''))
     = [''one'', ''two'']"
proof -
  have i: "inj (uuid_source ex_world)" by (simp add: ex_world_def ex_uuid_inj)
  have u: "ex_uuid (Suc 0) = ''uu''" "ex_uuid (Suc (Suc 0)) = ''uuu''"
    by (simp_all add: ex_uuid_def)
  have m: "ex_meta \<noteq> Map.empty" by (simp add: ex_meta_def)
  have r: "fst (add_texts ex_store ex_world [''one'', ''two''] (Some [ex_meta, ex_meta])
                  (Some [''same'', ''same'']))
             = [''uu'', ''uuu'']"
    "map rec_id (the (chroma (snd (add_texts ex_store ex_world [''one'', ''two'']
                                   (Some [ex_meta, ex_meta]) (Some [''same'', ''same''])))
                      ''rag_docs_u''))
     = [''uu'', ''uuu'']"
    "map rec_document (the (chroma (snd (add_texts ex_store ex_world [''one'', ''two'']
                                   (Some [ex_meta, ex_meta]) (Some [''same'', ''same''])))
                      ''rag_docs_u''))
     = [''one'', ''two'']"
    using m
    by (simp_all add: add_texts_def uuid4s_def collection_add_def ex_world_def ex_store_def
        u upt_rec)
  have c: "collection ex_store" by (simp add: ex_store_def)
  show ?thesis
    using duplicate_ids_regenerated
      [of "[''same'', ''same'']" ex_world "[''one'', ''two'']" "Some [ex_meta, ex_meta]" ex_store,
       OF _ i]
    by (simp add: r i c)
qed

text \<open>
  C5 as stated fails: not every call with a duplicate among the supplied ids draws fresh
  UUIDs and stores the texts. On a store without a collection the call returns the empty
  list with the process unchanged: no UUID is drawn and nothing is stored. With the default
  metadata, an empty dictionary per text, the index refuses the batch: the call returns the
  empty list and the collection stays empty.
\<close>

theorem duplicate_ids_counterexample:
  "\<not> distinct [''same'', ''same''] \<and>
   add_texts ex_store_down ex_world [''one'', ''two''] (Some [ex_meta, ex_meta])
     (Some [''same'', ''same'']) = ([], ex_world) \<and>
   fst (add_texts ex_store ex_world [''one'', ''two''] None (Some [''same'', ''same''])) = [] \<and>
   chroma (snd (add_texts ex_store ex_world [''one'', ''two''] None (Some [''same'', ''same''])))
     ''rag_docs_u'' = Some []"
  by (simp add: add_texts_def uuid4s_def collection_add_def ex_world_def ex_store_def
      ex_store_down_def)

section \<open>The ledger of document summaries\<close>

lemma key_field_cases: "key_field_of d = ''url'' \<or> key_field_of d = ''filename''"
  by (simp add: key_field_of_def)

lemma wf_match:
  assumes "wf_summary d" and "v \<noteq> PNone" and "K = ''url'' \<or> K = ''filename''"
  shows "(py_get d K = v) = (summary_key d = (K, v))"
proof
  assume g: "py_get d K = v"
  with assms(2) have "d K \<noteq> None" by (auto simp: py_get_def split: option.splits)
  with assms(1,3) have "key_field_of d = K"
    by (auto simp: wf_summary_def key_field_of_def other_field_of_def split: if_splits)
  with g show "summary_key d = (K, v)" by (simp add: summary_key_def)
next
  assume "summary_key d = (K, v)"
  then show "py_get d K = v" by (auto simp: summary_key_def)
qed

lemma wf_summary_key:
  assumes "wf_summary d"
  shows "\<exists>v. d (key_field_of d) = Some v \<and> v \<noteq> PNone \<and> summary_key d = (key_field_of d, v)"
  using assms by (auto simp: wf_summary_def summary_key_def py_get_def)

lemma merged_summary:
  assumes "wf_summary ex" and "wf_summary doc_info"
    and "summary_key ex = summary_key doc_info"
  shows "summary_key ((ex ++ doc_info)(''chunks'' \<mapsto> c, ''date_updated'' \<mapsto> u))
           = summary_key doc_info \<and>
         wf_summary ((ex ++ doc_info)(''chunks'' \<mapsto> c, ''date_updated'' \<mapsto> u))"
proof -
  define d' where "d' = (ex ++ doc_info)(''chunks'' \<mapsto> c, ''date_updated'' \<mapsto> u)"
  from assms(3) have k: "key_field_of ex = key_field_of doc_info"
    by (simp add: summary_key_def)
  have ty: "py_get d' ''type'' = (case doc_info ''type'' of None \<Rightarrow> py_get ex ''type'' | Some x \<Rightarrow> x)"
    by (simp add: d'_def py_get_def map_add_def split: option.splits)
  have kf: "key_field_of d' = key_field_of doc_info"
  proof (cases "doc_info ''type''")
    case None
    then have "py_get d' ''type'' = py_get ex ''type''" using ty by simp
    then have "key_field_of d' = key_field_of ex" by (simp add: key_field_of_def)
    with k show ?thesis by simp
  next
    case (Some x)
    then have "py_get d' ''type'' = py_get doc_info ''type''" using ty by (simp add: py_get_def)
    then show ?thesis by (simp add: key_field_of_def)
  qed
  then have of: "other_field_of d' = other_field_of doc_info"
    by (simp add: key_field_of_def other_field_of_def split: if_splits)
  from k have oe: "other_field_of ex = other_field_of doc_info"
    by (simp add: key_field_of_def other_field_of_def split: if_splits)
  from wf_summary_key[OF assms(2)] obtain v where
    v: "doc_info (key_field_of doc_info) = Some v" "v \<noteq> PNone" by blast
  have nk: "key_field_of doc_info \<noteq> ''chunks''" "key_field_of doc_info \<noteq> ''date_updated''"
    "other_field_of doc_info \<noteq> ''chunks''" "other_field_of doc_info \<noteq> ''date_updated''"
    by (simp_all add: key_field_of_def other_field_of_def)
  have dk: "d' (key_field_of doc_info) = Some v"
    using v nk by (simp add: d'_def map_add_def)
  have "ex (other_field_of doc_info) = None" "doc_info (other_field_of doc_info) = None"
    using assms(1,2) oe by (simp_all add: wf_summary_def)
  then have dn: "d' (other_field_of doc_info) = None"
    using nk by (simp add: d'_def map_add_def)
  have "summary_key d' = summary_key doc_info"
    using kf dk v by (simp add: summary_key_def py_get_def)
  moreover have "wf_summary d'"
    using kf of dk dn v by (simp add: wf_summary_def py_get_def)
  ultimately show ?thesis unfolding d'_def by simp
qed

lemma add_document_cases:
  assumes wf: "\<forall>d \<in> set (documents_info inst). wf_summary d" and wfd: "wf_summary doc_info"
  shows "(summary_key doc_info \<notin> set (map summary_key (documents_info inst)) \<longrightarrow>
            add_document now w inst doc_info
              = inst\<lparr>documents_info := documents_info inst @ [doc_info]\<rparr>) \<and>
         (summary_key doc_info \<in> set (map summary_key (documents_info inst)) \<longrightarrow>
            (\<exists>before existing after.
               documents_info inst = before @ existing # after \<and>
               summary_key existing = summary_key doc_info \<and>
               summary_key doc_info \<notin> set (map summary_key before) \<and>
               add_document now w inst doc_info
                 = inst\<lparr>documents_info := before @
                     (existing ++ doc_info)(''chunks'' \<mapsto> PInt (int (get_vector_count inst w)),
                                            ''date_updated'' \<mapsto> PStr now) # after\<rparr>))"
proof -
  define K where "K = key_field_of doc_info"
  from wf_summary_key[OF wfd] obtain v where
    v: "doc_info K = Some v" "v \<noteq> PNone" and sk: "summary_key doc_info = (K, v)"
    unfolding K_def by blast
  have Kc: "K = ''url'' \<or> K = ''filename''" unfolding K_def by (rule key_field_cases)
  have P: "(py_get d K = v) = (summary_key d = summary_key doc_info)"
    if "d \<in> set (documents_info inst)" for d
    using wf_match[OF _ v(2) Kc, of d] wf that sk by simp
  have kf: "(if py_get doc_info ''type'' = PStr ''url'' then ''url'' else ''filename'') = K"
    by (simp add: K_def key_field_of_def)
  show ?thesis
  proof (intro conjI impI)
    assume "summary_key doc_info \<notin> set (map summary_key (documents_info inst))"
    then have "\<not> (\<exists>d \<in> set (documents_info inst). py_get d K = v)"
      using P by (metis image_eqI set_map)
    then have "List.extract (\<lambda>d. py_get d K = v) (documents_info inst) = None"
      by (simp add: extract_None_iff)
    then show "add_document now w inst doc_info
              = inst\<lparr>documents_info := documents_info inst @ [doc_info]\<rparr>"
      by (simp add: add_document_def Let_def kf v)
  next
    assume "summary_key doc_info \<in> set (map summary_key (documents_info inst))"
    then have "\<exists>d \<in> set (documents_info inst). py_get d K = v"
      using P by (metis imageE set_map)
    then obtain before existing after where
      e: "List.extract (\<lambda>d. py_get d K = v) (documents_info inst) = Some (before, existing, after)"
      by (cases "List.extract (\<lambda>d. py_get d K = v) (documents_info inst)")
         (auto simp: extract_None_iff)
    then have split: "documents_info inst = before @ existing # after"
      and pe: "py_get existing K = v"
      and nb: "\<not> (\<exists>y \<in> set before. py_get y K = v)"
      by (auto simp: extract_Some_iff)
    have ein: "existing \<in> set (documents_info inst)" using split by simp
    have ke: "summary_key existing = summary_key doc_info" using P[OF ein] pe by simp
    have "existing K \<noteq> None" using pe v(2) by (auto simp: py_get_def split: option.splits)
    then have ne: "existing \<noteq> Map.empty" by auto
    have nbk: "summary_key doc_info \<notin> set (map summary_key before)"
    proof
      assume "summary_key doc_info \<in> set (map summary_key before)"
      then obtain y where y: "y \<in> set before" "summary_key y = summary_key doc_info" by auto
      then have "y \<in> set (documents_info inst)" using split by simp
      from P[OF this] y(2) have "py_get y K = v" by simp
      with nb y(1) show False by blast
    qed
    have "add_document now w inst doc_info
                 = inst\<lparr>documents_info := before @
                     (existing ++ doc_info)(''chunks'' \<mapsto> PInt (int (get_vector_count inst w)),
                                            ''date_updated'' \<mapsto> PStr now) # after\<rparr>"
      using ne by (simp add: add_document_def Let_def kf v e)
    with split ke nbk show "\<exists>before existing after.
               documents_info inst = before @ existing # after \<and>
               summary_key existing = summary_key doc_info \<and>
               summary_key doc_info \<notin> set (map summary_key before) \<and>
               add_document now w inst doc_info
                 = inst\<lparr>documents_info := before @
                     (existing ++ doc_info)(''chunks'' \<mapsto> PInt (int (get_vector_count inst w)),
                                            ''date_updated'' \<mapsto> PStr now) # after\<rparr>"
      by blast
  qed
qed

lemma add_document_upsert_aux:
  assumes "\<forall>d \<in> set (documents_info inst). wf_summary d" and "wf_summary doc_info"
    and "one_per_key (documents_info inst)"
  shows "one_per_key (documents_info (add_document now w inst doc_info)) \<and>
         (\<forall>d \<in> set (documents_info (add_document now w inst doc_info)). wf_summary d) \<and>
         (summary_key doc_info \<notin> set (map summary_key (documents_info inst)) \<longrightarrow>
            documents_info (add_document now w inst doc_info) = documents_info inst @ [doc_info]) \<and>
         (summary_key doc_info \<in> set (map summary_key (documents_info inst)) \<longrightarrow>
            length (documents_info (add_document now w inst doc_info))
              = length (documents_info inst) \<and>
            map summary_key (documents_info (add_document now w inst doc_info))
              = map summary_key (documents_info inst) \<and>
            (\<exists>before existing after.
               documents_info inst = before @ existing # after \<and>
               summary_key existing = summary_key doc_info \<and>
               documents_info (add_document now w inst doc_info)
                 = before @
                   (existing ++ doc_info)(''chunks'' \<mapsto> PInt (int (get_vector_count inst w)),
                                          ''date_updated'' \<mapsto> PStr now) # after))"
proof (cases "summary_key doc_info \<in> set (map summary_key (documents_info inst))")
  case False
  with add_document_cases[OF assms(1,2), of now w]
  have a: "add_document now w inst doc_info
              = inst\<lparr>documents_info := documents_info inst @ [doc_info]\<rparr>" by blast
  have "one_per_key (documents_info inst @ [doc_info])"
    using assms(3) False by (simp add: one_per_key_def)
  with a False assms(1,2) show ?thesis by auto
next
  case True
  with add_document_cases[OF assms(1,2), of now w]
  obtain before existing after where
    split: "documents_info inst = before @ existing # after"
    and ke: "summary_key existing = summary_key doc_info"
    and a: "add_document now w inst doc_info
                 = inst\<lparr>documents_info := before @
                     (existing ++ doc_info)(''chunks'' \<mapsto> PInt (int (get_vector_count inst w)),
                                            ''date_updated'' \<mapsto> PStr now) # after\<rparr>"
    by blast
  define d' where "d' = (existing ++ doc_info)(''chunks'' \<mapsto> PInt (int (get_vector_count inst w)),
                                            ''date_updated'' \<mapsto> PStr now)"
  have "wf_summary existing" using assms(1) split by simp
  from merged_summary[OF this assms(2) ke]
  have m: "summary_key d' = summary_key doc_info" "wf_summary d'" unfolding d'_def by blast+
  have docs: "documents_info (add_document now w inst doc_info) = before @ d' # after"
    using a by (simp add: d'_def)
  have keys: "map summary_key (before @ d' # after) = map summary_key (documents_info inst)"
    using split m(1) ke by simp
  have 1: "one_per_key (before @ d' # after)"
    using assms(3) keys by (simp add: one_per_key_def)
  have 2: "\<forall>d \<in> set (before @ d' # after). wf_summary d"
    using assms(1) split m(2) by auto
  have 3: "length (before @ d' # after) = length (documents_info inst)"
    using split by simp
  show ?thesis
    using True 1 2 3 keys split ke unfolding docs d'_def by blast
qed

text \<open>
  C4: on a ledger of summaries as the ingestion paths build them (each carries its own key
  field, \<open>url\<close> for a url-typed document and \<open>filename\<close> otherwise, and not the other
  one), \<open>add_document\<close> keeps at most one summary per key. A document whose key is
  absent is appended. A document whose key is present is never appended: the ledger keeps
  its length and its keys, and the entry with that key is replaced in place by the merge of
  the old and the new fields, with \<open>chunks\<close> set to the live count of the store and
  \<open>date_updated\<close> to the current time.
\<close>

theorem add_document_upsert:
  assumes "\<forall>d \<in> set (documents_info inst). wf_summary d" and "wf_summary doc_info"
    and "one_per_key (documents_info inst)"
  shows "one_per_key (documents_info (add_document now w inst doc_info)) \<and>
         (\<forall>d \<in> set (documents_info (add_document now w inst doc_info)). wf_summary d) \<and>
         (summary_key doc_info \<notin> set (map summary_key (documents_info inst)) \<longrightarrow>
            documents_info (add_document now w inst doc_info) = documents_info inst @ [doc_info]) \<and>
         (summary_key doc_info \<in> set (map summary_key (documents_info inst)) \<longrightarrow>
            length (documents_info (add_document now w inst doc_info))
              = length (documents_info inst) \<and>
            map summary_key (documents_info (add_document now w inst doc_info))
              = map summary_key (documents_info inst) \<and>
            (\<exists>before existing after.
               documents_info inst = before @ existing # after \<and>
               summary_key existing = summary_key doc_info \<and>
               documents_info (add_document now w inst doc_info)
                 = before @
                   (existing ++ doc_info)(''chunks'' \<mapsto> PInt (int (get_vector_count inst w)),
                                          ''date_updated'' \<mapsto> PStr now) # after))"
  using assms by (rule add_document_upsert_aux)

lemma pdf_summary_wf:
  "wf_summary (pdf_summary now f n sz)" "summary_key (pdf_summary now f n sz) = (''filename'', PStr f)"
  by (simp_all add: wf_summary_def summary_key_def key_field_of_def other_field_of_def
      py_get_def pdf_summary_def)

lemma process_pdf_store_eq:
  "all_chunks \<noteq> [] \<Longrightarrow>
   process_pdf_store now f sz all_chunks metas inst w =
     (add_document now (snd (RAGInstance_add_texts inst w all_chunks (Some metas))) inst
        (pdf_summary now f (int (length all_chunks)) sz),
      snd (RAGInstance_add_texts inst w all_chunks (Some metas)))"
  by (simp add: process_pdf_store_def pdf_summary_def split: prod.splits)

lemma add_document_vector_store: "vector_store (add_document now w inst doc_info) = vector_store inst"
  by (simp add: add_document_def Let_def split: option.splits prod.splits)

lemma filter_one_key:
  assumes "distinct (map g (xs @ y # zs))" and "g y = k"
  shows "filter (\<lambda>x. g x = k) (xs @ y # zs) = [y]"
proof -
  have "g y \<notin> g ` set xs" "g y \<notin> g ` set zs"
    using assms(1) by auto
  then have "\<forall>x \<in> set xs. g x \<noteq> k" "\<forall>x \<in> set zs. g x \<noteq> k"
    using assms(2) by (metis image_eqI)+
  then have "filter (\<lambda>x. g x = k) xs = []" "filter (\<lambda>x. g x = k) zs = []"
    by (simp_all add: filter_empty_conv)
  with assms(2) show ?thesis by simp
qed

lemma reingest_aux:
  assumes "\<forall>d \<in> set (documents_info inst). wf_summary d"
    and "one_per_key (documents_info inst)"
    and "(''filename'', PStr f) \<in> set (map summary_key (documents_info inst))"
    and "all_chunks \<noteq> []"
  shows "case process_pdf_store now f sz all_chunks metas inst w of
           (inst', w') \<Rightarrow>
             length (documents_info inst') = length (documents_info inst) \<and>
             (\<exists>d. filter (\<lambda>d. py_get d ''filename'' = PStr f) (documents_info inst') = [d] \<and>
                  py_get d ''chunks'' = PInt (int (get_vector_count inst' w')))"
proof -
  define w' where "w' = snd (RAGInstance_add_texts inst w all_chunks (Some metas))"
  define doc where "doc = pdf_summary now f (int (length all_chunks)) sz"
  define inst' where "inst' = add_document now w' inst doc"
  have p: "process_pdf_store now f sz all_chunks metas inst w = (inst', w')"
    using assms(4) by (simp add: process_pdf_store_eq inst'_def w'_def doc_def)
  have wfd: "wf_summary doc" and kd: "summary_key doc = (''filename'', PStr f)"
    unfolding doc_def by (rule pdf_summary_wf)+
  have present: "summary_key doc \<in> set (map summary_key (documents_info inst))"
    using assms(3) kd by simp
  from add_document_upsert_aux[OF assms(1) wfd assms(2), of now w'] present
  obtain before existing after where
    len: "length (documents_info inst') = length (documents_info inst)"
    and one: "one_per_key (documents_info inst')"
    and wf': "\<forall>d \<in> set (documents_info inst'). wf_summary d"
    and split: "documents_info inst = before @ existing # after"
    and ke: "summary_key existing = summary_key doc"
    and docs: "documents_info inst'
                 = before @
                   (existing ++ doc)(''chunks'' \<mapsto> PInt (int (get_vector_count inst w')),
                                     ''date_updated'' \<mapsto> PStr now) # after"
    unfolding inst'_def by blast
  define d' where "d' = (existing ++ doc)(''chunks'' \<mapsto> PInt (int (get_vector_count inst w')),
                                     ''date_updated'' \<mapsto> PStr now)"
  have "wf_summary existing" using assms(1) split by simp
  from merged_summary[OF this wfd ke] have kd': "summary_key d' = (''filename'', PStr f)"
    unfolding d'_def using kd by simp
  have "filter (\<lambda>d. py_get d ''filename'' = PStr f) (documents_info inst')
        = filter (\<lambda>d. summary_key d = (''filename'', PStr f)) (documents_info inst')"
    using wf' by (intro filter_cong refl wf_match) simp_all
  also have "\<dots> = [d']"
    using one kd' unfolding docs d'_def[symmetric] one_per_key_def by (intro filter_one_key)
  finally have f1: "filter (\<lambda>d. py_get d ''filename'' = PStr f) (documents_info inst') = [d']" .
  have "get_vector_count inst' w' = get_vector_count inst w'"
    by (simp add: get_vector_count_def inst'_def add_document_vector_store)
  then have c: "py_get d' ''chunks'' = PInt (int (get_vector_count inst' w'))"
    by (simp add: d'_def py_get_def)
  show ?thesis
    using p len f1 c by simp
qed

text \<open>
  C3, as the code has it: when a file whose name already has a summary is ingested again,
  the ledger keeps its length, it holds exactly one entry for that filename, and the
  \<open>chunks\<close> field of that entry is the live record count of the tenant's store after the
  new chunks were added.
\<close>

theorem reingest_refreshes_chunks:
  assumes "\<forall>d \<in> set (documents_info inst). wf_summary d"
    and "one_per_key (documents_info inst)"
    and "(''filename'', PStr f) \<in> set (map summary_key (documents_info inst))"
    and "all_chunks \<noteq> []"
  shows "case process_pdf_store now f sz all_chunks metas inst w of
           (inst', w') \<Rightarrow>
             length (documents_info inst') = length (documents_info inst) \<and>
             (\<exists>d. filter (\<lambda>d. py_get d ''filename'' = PStr f) (documents_info inst') = [d] \<and>
                  py_get d ''chunks'' = PInt (int (get_vector_count inst' w')))"
  using assms by (rule reingest_aux)

lemma store_holds_count:
  "store_holds (vector_store inst) w n \<Longrightarrow> get_vector_count inst w = n"
  by (auto simp: store_holds_def get_vector_count_def get_count_def collection_count_def
      split: option.splits)

lemma add_texts_holds:
  assumes "store_holds store w n" and "texts \<noteq> []" and "length metas = length texts"
    and "\<forall>m \<in> set metas. m \<noteq> Map.empty"
  shows "store_holds store (snd (add_texts store w texts (Some metas) None)) (n + length texts)"
proof -
  from assms(1) obtain recs where inj: "inj (uuid_source w)" and c: "collection store"
    and r: "chroma w (collection_name store) = Some recs" and l: "length recs = n"
    and ids: "set (map rec_id recs) \<subseteq> uuid_source w ` {..< uuid_next w}"
    by (auto simp: store_holds_def split: option.splits)
  define fresh where "fresh = map (uuid_source w) [uuid_next w ..< uuid_next w + length texts]"
  define w1 where "w1 = w\<lparr>uuid_next := uuid_next w + length texts\<rparr>"
  have d: "distinct fresh" unfolding fresh_def using inj by (rule fresh_distinct)
  have lf: "length fresh = length texts" by (simp add: fresh_def)
  have disj: "set fresh \<inter> set (map rec_id recs) = {}"
  proof (rule ccontr)
    assume "set fresh \<inter> set (map rec_id recs) \<noteq> {}"
    then obtain i where i: "i \<in> set fresh" "i \<in> set (map rec_id recs)" by blast
    from i(1) obtain a where a: "i = uuid_source w a" "uuid_next w \<le> a"
      by (auto simp: fresh_def)
    from i(2) ids obtain b where b: "i = uuid_source w b" "b < uuid_next w" by auto
    from a b inj have "a = b" by (simp add: inj_eq)
    with a b show False by simp
  qed
  have ok: "\<not> (length texts \<noteq> length fresh \<or> length metas \<noteq> length fresh \<or>
             \<not> distinct fresh \<or> (\<exists>m \<in> set metas. m = Map.empty))"
    using lf assms(3,4) d by auto
  obtain db where ca: "collection_add (chroma w) (collection_name store) texts metas fresh = Inr db"
    using r ok by (simp add: collection_add_def)
  from collection_add_Inr[OF ca] r disj obtain new where
    db: "db (collection_name store) = Some (recs @ new)" and nid: "map rec_id new = fresh"
    by auto
  have at: "add_texts store w texts (Some metas) None = (fresh, w1\<lparr>chroma := db\<rparr>)"
    using assms(2) c d ca
    by (simp add: add_texts_def uuid4s_def dup_check Let_def fresh_def w1_def)
  have ln: "length new = length texts"
    using nid lf by (metis length_map)
  have sub: "set (map rec_id (recs @ new)) \<subseteq> uuid_source w ` {..< uuid_next w + length texts}"
  proof -
    have "set fresh \<subseteq> uuid_source w ` {..< uuid_next w + length texts}"
      by (auto simp: fresh_def)
    moreover have "uuid_source w ` {..< uuid_next w} \<subseteq> uuid_source w ` {..< uuid_next w + length texts}"
      by auto
    ultimately show ?thesis using ids nid by auto
  qed
  show ?thesis
    unfolding at using inj c l ln sub db by (simp add: store_holds_def w1_def)
qed

lemma process_pdf_store_holds:
  assumes "store_holds (vector_store inst) w n" and "all_chunks \<noteq> []"
    and "length metas = length all_chunks" and "\<forall>m \<in> set metas. m \<noteq> Map.empty"
  shows "store_holds (vector_store (fst (process_pdf_store now f sz all_chunks metas inst w)))
           (snd (process_pdf_store now f sz all_chunks metas inst w)) (n + length all_chunks)"
  using add_texts_holds[OF assms]
  by (simp add: process_pdf_store_eq[OF assms(2)] add_document_vector_store
      RAGInstance_add_texts_def)

lemma py_lower_Docs: "py_lower ''Docs'' = ''docs''"
  by code_simp

lemma valid_name_docs: "valid_collection_name ''rag_docs_u''"
  by code_simp

lemma scenario_start_facts:
  "vector_store (fst scenario_start) = ex_store"
  "documents_info (fst scenario_start) = []"
  "store_holds ex_store (snd scenario_start) 0"
proof -
  have c: "get_or_create_collection Map.empty ''rag_docs_u'' = Inr [''rag_docs_u'' \<mapsto> []]"
    by (simp add: get_or_create_collection_def valid_name_docs)
  show "vector_store (fst scenario_start) = ex_store"
    "documents_info (fst scenario_start) = []"
    "store_holds ex_store (snd scenario_start) 0"
    by (simp_all add: scenario_start_def RAGInstance_init_def uuid4s_def
        ChromaVectorStore_init_def c py_lower_Docs ex_uuid_def ex_store_def store_holds_def
        ex_uuid_inj Let_def)
qed

lemma scenario_first_facts:
  "vector_store (fst scenario_first) = ex_store"
  "documents_info (fst scenario_first) = [pdf_summary ''2025-01-01T00:01:00'' ''a.txt'' 10 1000]"
  "store_holds ex_store (snd scenario_first) 10"
proof -
  obtain inst w where s: "scenario_start = (inst, w)" by fastforce
  have f: "vector_store inst = ex_store" "documents_info inst = []"
    "store_holds (vector_store inst) w 0"
    using scenario_start_facts by (simp_all add: s)
  have ne: "replicate 10 ''chunk'' \<noteq> []" by simp
  show "vector_store (fst scenario_first) = ex_store"
    using f by (simp add: scenario_first_def s process_pdf_store_eq[OF ne] add_document_vector_store)
  show "documents_info (fst scenario_first) = [pdf_summary ''2025-01-01T00:01:00'' ''a.txt'' 10 1000]"
    using f add_document_cases[of inst "pdf_summary ''2025-01-01T00:01:00'' ''a.txt'' 10 1000"
        "''2025-01-01T00:01:00''"
        "snd (RAGInstance_add_texts inst w (replicate 10 ''chunk'')
           (Some (replicate 10 [''source_type'' \<mapsto> PStr ''pdf'', ''filename'' \<mapsto> PStr ''a.txt''])))"]
    by (simp add: scenario_first_def s process_pdf_store_eq[OF ne] pdf_summary_wf)
  show "store_holds ex_store (snd scenario_first) 10"
    using process_pdf_store_holds[OF f(3) ne, of _ "''2025-01-01T00:01:00''" "''a.txt''" 1000] f(1)
    by (simp add: scenario_first_def s process_pdf_store_eq[OF ne] add_document_vector_store)
qed

lemma scenario_first_hyps:
  "\<forall>d \<in> set (documents_info (fst scenario_first)). wf_summary d"
  "one_per_key (documents_info (fst scenario_first))"
  "(''filename'', PStr ''a.txt'') \<in> set (map summary_key (documents_info (fst scenario_first)))"
  by (simp_all add: scenario_first_facts pdf_summary_wf one_per_key_def)

lemma scenario_second_facts:
  "length (documents_info (fst scenario_second)) = 1"
  "py_get (hd (documents_info (fst scenario_second))) ''filename'' = PStr ''a.txt''"
  "py_get (hd (documents_info (fst scenario_second))) ''chunks'' = PInt 25"
proof -
  obtain inst w where s: "scenario_first = (inst, w)" by fastforce
  have f: "vector_store inst = ex_store" "store_holds (vector_store inst) w 10"
    "length (documents_info inst) = 1"
    using scenario_first_facts by (simp_all add: s)
  have h: "\<forall>d \<in> set (documents_info inst). wf_summary d" "one_per_key (documents_info inst)"
    "(''filename'', PStr ''a.txt'') \<in> set (map summary_key (documents_info inst))"
    using scenario_first_hyps by (simp_all add: s)
  have ne: "replicate 15 ''chunk'' \<noteq> []" by simp
  define metas where
    "metas = replicate 15 [''source_type'' \<mapsto> PStr ''pdf'', ''filename'' \<mapsto> PStr ''a.txt'']"
  obtain inst' w' where p: "process_pdf_store ''2025-01-01T00:02:00'' ''a.txt'' 1500
      (replicate 15 ''chunk'') metas inst w = (inst', w')" by fastforce
  have s2: "scenario_second = (inst', w')"
    by (simp add: scenario_second_def s p[unfolded metas_def])
  from reingest_aux[OF h ne, of "''2025-01-01T00:02:00''" 1500 metas w] p
  obtain d where len: "length (documents_info inst') = length (documents_info inst)"
    and fl: "filter (\<lambda>d. py_get d ''filename'' = PStr ''a.txt'') (documents_info inst') = [d]"
    and ch: "py_get d ''chunks'' = PInt (int (get_vector_count inst' w'))"
    by auto
  from len f(3) obtain x where x: "documents_info inst' = [x]"
    by (cases "documents_info inst'") auto
  with fl have xd: "x = d" "py_get d ''filename'' = PStr ''a.txt''"
    by (auto split: if_splits)
  have "store_holds (vector_store inst') w' (10 + 15)"
    using process_pdf_store_holds[OF f(2) ne, of metas "''2025-01-01T00:02:00''" "''a.txt''" 1500] p
    by (simp add: metas_def)
  then have "get_vector_count inst' w' = 25"
    using store_holds_count by fastforce
  with ch have c25: "py_get d ''chunks'' = PInt 25" by simp
  show "length (documents_info (fst scenario_second)) = 1"
    "py_get (hd (documents_info (fst scenario_second))) ''filename'' = PStr ''a.txt''"
    "py_get (hd (documents_info (fst scenario_second))) ''chunks'' = PInt 25"
    using x xd c25 by (simp_all add: s2)
qed

text \<open>
  C3 as stated fails: in a fresh tenant, ingesting a.txt with 10 chunks and then again
  with 15 chunks leaves one entry for a.txt whose \<open>chunks\<close> field is 25, the count of the
  store, and not 15.
\<close>

theorem reingest_chunks_counterexample:
  "length (documents_info (fst scenario_second)) = 1 \<and>
   py_get (hd (documents_info (fst scenario_second))) ''filename'' = PStr ''a.txt'' \<and>
   py_get (hd (documents_info (fst scenario_second))) ''chunks'' = PInt 25 \<and>
   py_get (hd (documents_info (fst scenario_second))) ''chunks'' \<noteq> PInt 15"
  by (simp add: scenario_second_facts)

theorem reingest_refreshes_chunks_witness:
  "documents_info (fst scenario_first) = [pdf_summary ''2025-01-01T00:01:00'' ''a.txt'' 10 1000] \<and>
   wf_summary (pdf_summary ''2025-01-01T00:01:00'' ''a.txt'' 10 1000) \<and>
   one_per_key (documents_info (fst scenario_first)) \<and>
   (''filename'', PStr ''a.txt'') \<in> set (map summary_key (documents_info (fst scenario_first))) \<and>
   replicate 15 ''chunk'' \<noteq> [] \<and>
   (case process_pdf_store ''2025-01-01T00:02:00'' ''a.txt'' 1500 (replicate 15 ''chunk'')
           (replicate 15 [''source_type'' \<mapsto> PStr ''pdf'', ''filename'' \<mapsto> PStr ''a.txt''])
           (fst scenario_first) (snd scenario_first) of
      (inst', w') \<Rightarrow>
        length (documents_info inst') = length (documents_info (fst scenario_first)) \<and>
        (\<exists>d. filter (\<lambda>d. py_get d ''filename'' = PStr ''a.txt'') (documents_info inst') = [d] \<and>
             py_get d ''chunks'' = PInt (int (get_vector_count inst' w'))))"
proof -
  have ne: "replicate 15 ''chunk'' \<noteq> []" by simp
  show ?thesis
    using reingest_refreshes_chunks [OF scenario_first_hyps ne, of "''2025-01-01T00:02:00''" 1500
        "replicate 15 [''source_type'' \<mapsto> PStr ''pdf'', ''filename'' \<mapsto> PStr ''a.txt'']"
        "snd scenario_first"]
      scenario_first_hyps(2,3) ne scenario_first_facts(2) pdf_summary_wf(1)
    by blast
qed

theorem add_document_upsert_witness:
  "documents_info (fst scenario_first) = [pdf_summary ''2025-01-01T00:01:00'' ''a.txt'' 10 1000] \<and>
   wf_summary (pdf_summary ''2025-01-01T00:01:00'' ''a.txt'' 10 1000) \<and>
   wf_summary (pdf_summary ''2025-01-01T00:02:00'' ''a.txt'' 15 1500) \<and>
   one_per_key (documents_info (fst scenario_first)) \<and>
   summary_key (pdf_summary ''2025-01-01T00:02:00'' ''a.txt'' 15 1500)
     \<in> set (map summary_key (documents_info (fst scenario_first))) \<and>
   length (documents_info (add_document ''2025-01-01T00:02:00'' (snd scenario_first)
             (fst scenario_first) (pdf_summary ''2025-01-01T00:02:00'' ''a.txt'' 15 1500))) = 1 \<and>
   one_per_key (documents_info (add_document ''2025-01-01T00:02:00'' (snd scenario_first)
             (fst scenario_first) (pdf_summary ''2025-01-01T00:02:00'' ''a.txt'' 15 1500)))"
proof -
  have k: "summary_key (pdf_summary ''2025-01-01T00:02:00'' ''a.txt'' 15 1500)
     \<in> set (map summary_key (documents_info (fst scenario_first)))"
    using scenario_first_hyps(3) by (simp add: pdf_summary_wf)
  have l: "length (documents_info (fst scenario_first)) = 1"
    by (simp add: scenario_first_facts)
  show ?thesis
    using add_document_upsert [of "fst scenario_first"
        "pdf_summary ''2025-01-01T00:02:00'' ''a.txt'' 15 1500" "''2025-01-01T00:02:00''"
        "snd scenario_first", OF scenario_first_hyps(1) pdf_summary_wf(1) scenario_first_hyps(2)]
      scenario_first_hyps(2) scenario_first_facts(2) pdf_summary_wf(1) k l
    by simp
qed

end
